theory Spec2Isabelle
  imports Complex_Main "HOL-Library.Multiset"
begin

unbundle bit_operations_syntax

section \<open>Data classes of the monitor (test\_0.8.0.py)\<close>

text \<open>
  \<^verbatim>\<open>ModbusPoint\<close> and \<^verbatim>\<open>Batch\<close> are the two dataclasses of the source. Python integers are
  unbounded, so every integer field is an \<open>int\<close>. The point's fields \<^verbatim>\<open>method\<close> and \<^verbatim>\<open>size\<close> are
  written \<open>method_pt\<close> and \<open>size_pt\<close>, the batch's \<^verbatim>\<open>method\<close> and \<^verbatim>\<open>count\<close> are written
  \<open>method_b\<close> and \<open>count_b\<close>, because the plain names are taken.
\<close>

record ModbusPoint =
  label :: string
  method_pt :: string
  offset :: int
  size_pt :: int
  fmt :: string
  mem :: string
  plc_addr :: int

record Batch =
  method_b :: string
  start :: int
  count_b :: int
  points :: "ModbusPoint list"

section \<open>Batching: \<^verbatim>\<open>ModbusWorker._make_batches\<close>\<close>

text \<open>
  \<^verbatim>\<open>grouped\<close> is a \<^verbatim>\<open>defaultdict(list)\<close>: a dictionary that keeps its keys in the order of
  their first insertion, so it is an association list here. \<open>grouped_append\<close> is one
  \<^verbatim>\<open>grouped[pt.method].append(pt)\<close>.
\<close>

fun grouped_append ::
  "(string \<times> ModbusPoint list) list \<Rightarrow> ModbusPoint \<Rightarrow> (string \<times> ModbusPoint list) list" where
  "grouped_append [] pt = [(method_pt pt, [pt])]"
| "grouped_append ((k, v) # g) pt =
     (if k = method_pt pt then (k, v @ [pt]) # g else (k, v) # grouped_append g pt)"

definition grouped :: "ModbusPoint list \<Rightarrow> (string \<times> ModbusPoint list) list" where
  "grouped pts = foldl grouped_append [] pts"

text \<open>
  The inner \<^verbatim>\<open>while i < len(pts) and pts[i].offset == end\<close> loop. The list argument is
  \<^verbatim>\<open>pts[i:]\<close>; the result is the final \<^verbatim>\<open>end\<close>, the final \<^verbatim>\<open>batch_pts\<close> and what is left of
  \<^verbatim>\<open>pts\<close> from the final \<^verbatim>\<open>i\<close> on.
\<close>

fun extend_batch ::
  "int \<Rightarrow> ModbusPoint list \<Rightarrow> ModbusPoint list \<Rightarrow> int \<times> ModbusPoint list \<times> ModbusPoint list" where
  "extend_batch endv batch_pts [] = (endv, batch_pts, [])"
| "extend_batch endv batch_pts (p # ps) =
     (if offset p = endv then extend_batch (endv + size_pt p) (batch_pts @ [p]) ps
      else (endv, batch_pts, p # ps))"

lemma extend_batch_rest_length:
  "length (snd (snd (extend_batch endv batch_pts ps))) \<le> length ps"
  by (induction ps arbitrary: endv batch_pts) (auto intro: le_SucI)

text \<open>The outer \<^verbatim>\<open>while i < len(pts)\<close> loop over one method's sorted points.\<close>

function scan_batches :: "string \<Rightarrow> ModbusPoint list \<Rightarrow> Batch list" where
  "scan_batches m [] = []"
| "scan_batches m (p # ps) =
     (let r = extend_batch (offset p + size_pt p) [p] ps
      in \<lparr>method_b = m, start = offset p, count_b = fst r - offset p, points = fst (snd r)\<rparr>
           # scan_batches m (snd (snd r)))"
  by pat_completeness auto
termination
  by (relation "measure (\<lambda>(m, ps). length ps)")
     (auto simp: extend_batch_rest_length le_imp_less_Suc)

text \<open>
  \<^verbatim>\<open>pts.sort(key=lambda p: p.offset)\<close> is a stable sort, as \<open>sort_key\<close> is; the batches of
  the methods are appended in the order of the dictionary's keys.
\<close>

definition make_batches :: "ModbusPoint list \<Rightarrow> Batch list" where
  "make_batches pts =
     concat (map (\<lambda>(m, ps). scan_batches m (sort_key offset ps)) (grouped pts))"

section \<open>Exceptions\<close>

text \<open>
  The Python exceptions the modelled functions raise. A function that can raise returns
  \<open>py_exception + 'a\<close>, with \<open>Inl\<close> for the exception.
\<close>

datatype py_exception = KeyError | ValueError | IndexError | RuntimeError

section \<open>Address mapping: \<^verbatim>\<open>plc_to_modbus\<close>\<close>

text \<open>
  A segment is the dictionary \<^verbatim>\<open>{"plc_base", "mb_base", "count"}\<close> that
  \<^verbatim>\<open>build_mapping\<close> appends (\<^verbatim>\<open>count\<close> is written \<open>count_seg\<close>); the mapping is a dictionary
  from the memory letter to its list of segments.
\<close>

record segment =
  plc_base :: int
  mb_base :: int
  count_seg :: int

type_synonym mapping_t = "string \<rightharpoonup> segment list"

text \<open>The test of the loop: \<^verbatim>\<open>seg["plc_base"] <= plc_addr < seg["plc_base"] + seg["count"]\<close>.\<close>

definition covers :: "segment \<Rightarrow> int \<Rightarrow> bool" where
  "covers seg a \<longleftrightarrow> plc_base seg \<le> a \<and> a < plc_base seg + count_seg seg"

text \<open>The \<^verbatim>\<open>for seg in mapping[mem]\<close> loop, ending in \<^verbatim>\<open>raise ValueError\<close>.\<close>

fun scan_segments :: "int \<Rightarrow> segment list \<Rightarrow> py_exception + int" where
  "scan_segments a [] = Inl ValueError"
| "scan_segments a (seg # segs) =
     (if covers seg a then Inr (mb_base seg + (a - plc_base seg)) else scan_segments a segs)"

text \<open>\<^verbatim>\<open>mapping[mem]\<close> raises \<^verbatim>\<open>KeyError\<close> when the letter is not a key of the dictionary.\<close>

definition plc_to_modbus :: "string \<Rightarrow> int \<Rightarrow> mapping_t \<Rightarrow> py_exception + int" where
  "plc_to_modbus c a mapping =
     (case mapping c of None \<Rightarrow> Inl KeyError | Some segs \<Rightarrow> scan_segments a segs)"

text \<open>
  Two segments do not overlap when one ends before the other begins; a list of segments
  is non-overlapping when that holds for each two of its positions.
\<close>

definition seg_disjoint :: "segment \<Rightarrow> segment \<Rightarrow> bool" where
  "seg_disjoint s t \<longleftrightarrow>
     plc_base s + count_seg s \<le> plc_base t \<or> plc_base t + count_seg t \<le> plc_base s"

fun non_overlapping_segs :: "segment list \<Rightarrow> bool" where
  "non_overlapping_segs [] = True"
| "non_overlapping_segs (s # ss) = (list_all (seg_disjoint s) ss \<and> non_overlapping_segs ss)"

section \<open>Decoding: \<^verbatim>\<open>_u16_to_s16\<close>, \<^verbatim>\<open>_u32_to_s32\<close>, \<^verbatim>\<open>ModbusWorker._decode_value\<close>\<close>

definition u16_to_s16 :: "int \<Rightarrow> int" where
  "u16_to_s16 x = (if x AND 0x8000 \<noteq> 0 then x - 0x10000 else x)"

definition u32_to_s32 :: "int \<Rightarrow> int" where
  "u32_to_s32 x = (if x AND 0x80000000 \<noteq> 0 then x - 0x100000000 else x)"

text \<open>
  The data of one batch for one tick, as \<^verbatim>\<open>run\<close> stores it: the empty dictionary after a
  read error, \<^verbatim>\<open>{"start", "bits"}\<close> for a coil or discrete-input batch and
  \<^verbatim>\<open>{"start", "regs"}\<close> for a register batch.
\<close>

datatype batch_data = NoData | BitsData int "bool list" | RegsData int "int list"

text \<open>Python's \<^verbatim>\<open>xs[i]\<close>: a negative index counts from the end, an index out of range raises.\<close>

definition py_index :: "'a list \<Rightarrow> int \<Rightarrow> py_exception + 'a" where
  "py_index xs i =
     (if 0 \<le> i \<and> i < int (length xs) then Inr (xs ! nat i)
      else if i < 0 \<and> - int (length xs) \<le> i then Inr (xs ! nat (int (length xs) + i))
      else Inl IndexError)"

definition bit_method :: "string \<Rightarrow> bool" where
  "bit_method m \<longleftrightarrow> m = ''read_coils'' \<or> m = ''read_discrete_inputs''"

definition decode_value :: "ModbusPoint \<Rightarrow> batch_data \<Rightarrow> py_exception + int" where
  "decode_value pt d =
     (case d of
        NoData \<Rightarrow> Inl KeyError
      | BitsData st bits \<Rightarrow>
          (if bit_method (method_pt pt) then
             (case py_index bits (offset pt - st) of
                Inl e \<Rightarrow> Inl e
              | Inr b \<Rightarrow> Inr (if b then 1 else 0))
           else Inl KeyError)
      | RegsData st regs \<Rightarrow>
          (if bit_method (method_pt pt) then Inl KeyError
           else if size_pt pt = 1 then
             (case py_index regs (offset pt - st) of
                Inl e \<Rightarrow> Inl e
              | Inr raw \<Rightarrow> Inr (if fmt pt = ''s16'' then u16_to_s16 raw else raw))
           else
             (case py_index regs (offset pt - st) of
                Inl e \<Rightarrow> Inl e
              | Inr low \<Rightarrow>
                  (case py_index regs (offset pt - st + 1) of
                     Inl e \<Rightarrow> Inl e
                   | Inr high \<Rightarrow> Inr (u32_to_s32 (push_bit 16 high OR low))))))"

section \<open>Spreadsheet cells and Python's text functions\<close>

text \<open>
  A cell of a row as \<^verbatim>\<open>pandas\<close> hands it over: blank (the float \<^verbatim>\<open>nan\<close>), a whole number, a
  finite float, or a text. Texts are ASCII here: the characters beyond ASCII that
  \<^verbatim>\<open>str.upper\<close>, \<^verbatim>\<open>str.strip\<close> and \<^verbatim>\<open>int\<close> treat specially are outside the model.
\<close>

datatype cell = NaN | PyInt int | PyFloat real | PyStr string

text \<open>\<^verbatim>\<open>int(x)\<close> of a finite float rounds towards zero.\<close>

definition py_int_float :: "real \<Rightarrow> int" where
  "py_int_float x = (if 0 \<le> x then \<lfloor>x\<rfloor> else \<lceil>x\<rceil>)"

text \<open>\<^verbatim>\<open>str.strip()\<close>: the ASCII characters for which \<^verbatim>\<open>str.isspace\<close> holds are removed at both ends.\<close>

definition isspace :: "char \<Rightarrow> bool" where
  "isspace c \<longleftrightarrow> (let n = (of_char c :: nat) in (9 \<le> n \<and> n \<le> 13) \<or> (28 \<le> n \<and> n \<le> 32))"

definition strip :: "string \<Rightarrow> string" where
  "strip s = rev (dropWhile isspace (rev (dropWhile isspace s)))"

text \<open>\<^verbatim>\<open>str.upper()\<close> and \<^verbatim>\<open>str.lower()\<close> on ASCII text.\<close>

definition upper_char :: "char \<Rightarrow> char" where
  "upper_char c =
     (case map_of (zip ''abcdefghijklmnopqrstuvwxyz'' ''ABCDEFGHIJKLMNOPQRSTUVWXYZ'') c of
        None \<Rightarrow> c | Some u \<Rightarrow> u)"

definition lower_char :: "char \<Rightarrow> char" where
  "lower_char c =
     (case map_of (zip ''ABCDEFGHIJKLMNOPQRSTUVWXYZ'' ''abcdefghijklmnopqrstuvwxyz'') c of
        None \<Rightarrow> c | Some l \<Rightarrow> l)"

definition upper :: "string \<Rightarrow> string" where
  "upper s = map upper_char s"

definition lower :: "string \<Rightarrow> string" where
  "lower s = map lower_char s"

text \<open>\<^verbatim>\<open>str(n)\<close> of an integer: its decimal digits, after a minus sign when it is negative.\<close>

fun str_nat :: "nat \<Rightarrow> string" where
  "str_nat n =
     (if n < 10 then [''0123456789'' ! n]
      else str_nat (n div 10) @ [''0123456789'' ! (n mod 10)])"

declare str_nat.simps [simp del]

definition str_int :: "int \<Rightarrow> string" where
  "str_int i = (if i < 0 then CHR ''-'' # str_nat (nat (- i)) else str_nat (nat i))"

text \<open>
  \<^verbatim>\<open>int(text, base)\<close> for the bases 10 and 16. The value of a digit character; the digits
  of a number, where one underscore may stand between two digits; and the whole text:
  surrounding whitespace, an optional sign, for base 16 an optional prefix \<^verbatim>\<open>0x\<close> or
  \<^verbatim>\<open>0X\<close> (which one underscore may follow), then the digits. Anything else raises
  \<^verbatim>\<open>ValueError\<close>. The interpreter's limit on the number of decimal digits is not modelled.
\<close>

definition digit_of :: "char \<Rightarrow> nat option" where
  "digit_of c =
     (let n = (of_char c :: nat)
      in if 48 \<le> n \<and> n \<le> 57 then Some (n - 48)
         else if 97 \<le> n \<and> n \<le> 122 then Some (n - 87)
         else if 65 \<le> n \<and> n \<le> 90 then Some (n - 55)
         else None)"

fun digits_value :: "nat \<Rightarrow> nat \<Rightarrow> string \<Rightarrow> nat option" where
  "digits_value base acc [] = None"
| "digits_value base acc [c] =
     (case digit_of c of
        None \<Rightarrow> None
      | Some d \<Rightarrow> if base \<le> d then None else Some (acc * base + d))"
| "digits_value base acc (c # x # xs) =
     (case digit_of c of
        None \<Rightarrow> None
      | Some d \<Rightarrow>
          if base \<le> d then None
          else if x = CHR ''_'' then digits_value base (acc * base + d) xs
          else digits_value base (acc * base + d) (x # xs))"

definition skip_sign :: "string \<Rightarrow> bool \<times> string" where
  "skip_sign s =
     (case s of
        [] \<Rightarrow> (False, s)
      | c # r \<Rightarrow> if c = CHR ''-'' then (True, r) else if c = CHR ''+'' then (False, r) else (False, s))"

definition skip_hex_prefix :: "string \<Rightarrow> string" where
  "skip_hex_prefix s =
     (case s of
        a # b # r \<Rightarrow>
          if a = CHR ''0'' \<and> (b = CHR ''x'' \<or> b = CHR ''X'')
          then (case r of u # r' \<Rightarrow> if u = CHR ''_'' then r' else r | [] \<Rightarrow> r)
          else s
      | _ \<Rightarrow> s)"

definition int_text :: "nat \<Rightarrow> string \<Rightarrow> py_exception + int" where
  "int_text base s =
     (let signed = skip_sign (strip s);
          body = (if base = 16 then skip_hex_prefix (snd signed) else snd signed)
      in case digits_value base 0 body of
           None \<Rightarrow> Inl ValueError
         | Some n \<Rightarrow> Inr (if fst signed then - int n else int n))"

section \<open>Reading a cell as an integer: \<^verbatim>\<open>parse_int\<close>\<close>

text \<open>
  A blank cell is the float \<^verbatim>\<open>nan\<close>, for which \<^verbatim>\<open>int\<close> raises \<^verbatim>\<open>ValueError\<close>. For a text,
  \<^verbatim>\<open>any(c in txt.upper() for c in "ABCDEF")\<close> chooses base 16.
\<close>

definition parse_int :: "cell \<Rightarrow> py_exception + int" where
  "parse_int v =
     (case v of
        NaN \<Rightarrow> Inl ValueError
      | PyInt i \<Rightarrow> Inr i
      | PyFloat x \<Rightarrow> Inr (py_int_float x)
      | PyStr s \<Rightarrow>
          (let t = strip s
           in if list_ex (\<lambda>c. c \<in> set (upper t)) ''ABCDEF'' then int_text 16 t
              else int_text 10 t))"

section \<open>What a decimal or hexadecimal numeral denotes\<close>

text \<open>
  The reference against which the parser is checked, written from the meaning of a
  numeral and not from the parser: the value of a digit is its place in the digit string
  \<^verbatim>\<open>0123456789abcdef\<close> (or \<^verbatim>\<open>0123456789ABCDEF\<close>), and the value of a digit string in base \<open>b\<close>
  is the sum of each digit's value times \<open>b\<close> to the number of digits after it.
\<close>

definition digit_value :: "char \<Rightarrow> nat" where
  "digit_value c =
     (if c \<in> set ''0123456789abcdef''
      then length (takeWhile (\<lambda>d. d \<noteq> c) ''0123456789abcdef'')
      else length (takeWhile (\<lambda>d. d \<noteq> c) ''0123456789ABCDEF''))"

fun positional_value :: "nat \<Rightarrow> string \<Rightarrow> nat" where
  "positional_value b [] = 0"
| "positional_value b (c # cs) = digit_value c * b ^ length cs + positional_value b cs"

section \<open>The type of a point: \<^verbatim>\<open>_normalize_type\<close> and \<^verbatim>\<open>load_points\<close>\<close>

definition normalize_type :: "cell \<Rightarrow> string" where
  "normalize_type tp_val =
     (if tp_val = NaN then []
      else
        (let tp = lower (strip (case tp_val of
                                  PyInt i \<Rightarrow> str_int i
                                | PyFloat x \<Rightarrow> str_int (py_int_float x)
                                | PyStr s \<Rightarrow> s
                                | NaN \<Rightarrow> []))
         in if tp \<in> {''16'', ''s16'', ''int16''} then ''s16''
            else if tp \<in> {''u16'', ''uint16''} then ''u16''
            else []))"

definition MEM_METHOD :: "string \<rightharpoonup> string" where
  "MEM_METHOD =
     map_of [(''M'', ''read_coils''), (''L'', ''read_coils''), (''Y'', ''read_coils''),
             (''X'', ''read_discrete_inputs''), (''D'', ''read_holding_registers'')]"

text \<open>
  A row of the configuration sheet: the memory letter (a text cell), the PLC address, the
  description (\<open>None\<close> when the cell is blank or the column is missing) and the type hint
  (\<open>NaN\<close> when the cell is blank or the column is missing).
\<close>

record config_row =
  row_mem :: string
  row_plc_addr :: cell
  row_desc :: "string option"
  row_type :: cell

text \<open>The body of the loop of \<^verbatim>\<open>load_points\<close> for one row, with the mapping already built.\<close>

definition load_point :: "mapping_t \<Rightarrow> config_row \<Rightarrow> py_exception + ModbusPoint" where
  "load_point mapping r =
     (let m = upper (strip (row_mem r))
      in case parse_int (row_plc_addr r) of
           Inl e \<Rightarrow> Inl e
         | Inr a \<Rightarrow>
             (let lbl = (case row_desc r of Some d \<Rightarrow> d | None \<Rightarrow> m @ str_int a)
              in case plc_to_modbus m a mapping of
                   Inl e \<Rightarrow> Inl e
                 | Inr mb_addr \<Rightarrow>
                     (case MEM_METHOD m of
                        None \<Rightarrow> Inl ValueError
                      | Some meth \<Rightarrow>
                          if meth = [] then Inl ValueError
                          else
                            (let tp_norm = normalize_type (row_type r);
                                 sf = (if m = ''D''
                                       then (if tp_norm = ''s16'' then (1, ''s16'')
                                             else if tp_norm = ''u16'' then (1, ''u16'')
                                             else (2, ''s32''))
                                       else (1, ''bit''))
                             in Inr \<lparr>label = lbl, method_pt = meth, offset = mb_addr,
                                     size_pt = fst sf, fmt = snd sf, mem = m, plc_addr = a\<rparr>))))"

fun load_points :: "mapping_t \<Rightarrow> config_row list \<Rightarrow> py_exception + ModbusPoint list" where
  "load_points mapping [] = Inr []"
| "load_points mapping (r # rs) =
     (case load_point mapping r of
        Inl e \<Rightarrow> Inl e
      | Inr pt \<Rightarrow>
          (case load_points mapping rs of Inl e \<Rightarrow> Inl e | Inr pts \<Rightarrow> Inr (pt # pts)))"

section \<open>Predicates on point lists used to state the batching properties\<close>

text \<open>
  The dictionary keys of \<^verbatim>\<open>grouped\<close> in insertion order: the methods of the points, each at
  its first occurrence.
\<close>

definition method_keys :: "ModbusPoint list \<Rightarrow> string list" where
  "method_keys pts = rev (remdups (rev (map method_pt pts)))"

text \<open>\<open>ends_before p q\<close>: the footprint of \<open>p\<close> ends at or before the offset of \<open>q\<close>.\<close>

definition ends_before :: "ModbusPoint \<Rightarrow> ModbusPoint \<Rightarrow> bool" where
  "ends_before p q \<longleftrightarrow> offset p + size_pt p \<le> offset q"

text \<open>
  The footprint of a point is \<open>[offset, offset + size)\<close>. Two footprints do not overlap when
  one ends at or before the start of the other. A point list is non-overlapping when every
  two of its positions that share a method have footprints that do not overlap.
\<close>

definition pt_disjoint :: "ModbusPoint \<Rightarrow> ModbusPoint \<Rightarrow> bool" where
  "pt_disjoint p q \<longleftrightarrow>
     offset p + size_pt p \<le> offset q \<or> offset q + size_pt q \<le> offset p"

fun non_overlapping :: "ModbusPoint list \<Rightarrow> bool" where
  "non_overlapping [] = True"
| "non_overlapping (p # ps) =
     (list_all (\<lambda>q. method_pt q = method_pt p \<longrightarrow> pt_disjoint p q) ps \<and> non_overlapping ps)"

text \<open>The sorted point list of one method: \<^verbatim>\<open>pts\<close> of the outer loop after \<^verbatim>\<open>pts.sort\<close>.\<close>

definition group_sorted :: "ModbusPoint list \<Rightarrow> string \<Rightarrow> ModbusPoint list" where
  "group_sorted pts k = sort_key offset (filter (\<lambda>p. method_pt p = k) pts)"

section \<open>Looking up the batch of a point: \<^verbatim>\<open>ModbusWorker._batch_start\<close>\<close>

text \<open>
  The \<^verbatim>\<open>for b in self._batches\<close> loop returns the start of the first batch of the point's
  method whose range holds the point's offset, and raises \<^verbatim>\<open>RuntimeError\<close> when there is
  none.
\<close>

fun batch_start :: "Batch list \<Rightarrow> ModbusPoint \<Rightarrow> py_exception + int" where
  "batch_start [] pt = Inl RuntimeError"
| "batch_start (b # bs) pt =
     (if method_b b = method_pt pt \<and> start b \<le> offset pt \<and> offset pt < start b + count_b b
      then Inr (start b) else batch_start bs pt)"

section \<open>Example point lists\<close>

text \<open>
  Four points given out of order: three holding registers (one 32-bit) and one coil;
  and the same points in another order.
\<close>

definition demo_points :: "ModbusPoint list" where
  "demo_points =
     [\<lparr>label = ''D20'', method_pt = ''read_holding_registers'', offset = 20, size_pt = 1,
        fmt = ''u16'', mem = ''D'', plc_addr = 20\<rparr>,
      \<lparr>label = ''M11'', method_pt = ''read_coils'', offset = 11, size_pt = 1,
        fmt = ''bit'', mem = ''M'', plc_addr = 11\<rparr>,
      \<lparr>label = ''D11'', method_pt = ''read_holding_registers'', offset = 11, size_pt = 2,
        fmt = ''s32'', mem = ''D'', plc_addr = 11\<rparr>,
      \<lparr>label = ''D10'', method_pt = ''read_holding_registers'', offset = 10, size_pt = 1,
        fmt = ''s16'', mem = ''D'', plc_addr = 10\<rparr>]"

definition demo_points_permuted :: "ModbusPoint list" where
  "demo_points_permuted =
     [\<lparr>label = ''M11'', method_pt = ''read_coils'', offset = 11, size_pt = 1,
        fmt = ''bit'', mem = ''M'', plc_addr = 11\<rparr>,
      \<lparr>label = ''D10'', method_pt = ''read_holding_registers'', offset = 10, size_pt = 1,
        fmt = ''s16'', mem = ''D'', plc_addr = 10\<rparr>,
      \<lparr>label = ''D20'', method_pt = ''read_holding_registers'', offset = 20, size_pt = 1,
        fmt = ''u16'', mem = ''D'', plc_addr = 20\<rparr>,
      \<lparr>label = ''D11'', method_pt = ''read_holding_registers'', offset = 11, size_pt = 2,
        fmt = ''s32'', mem = ''D'', plc_addr = 11\<rparr>]"

text \<open>
  Two 32-bit registers configured at the neighbouring addresses 0 and 1: their footprints
  \<open>[0, 2)\<close> and \<open>[1, 3)\<close> overlap.
\<close>

definition overlap_d0 :: ModbusPoint where
  "overlap_d0 = \<lparr>label = ''D0'', method_pt = ''read_holding_registers'', offset = 0, size_pt = 2,
     fmt = ''s32'', mem = ''D'', plc_addr = 0\<rparr>"

definition overlap_d1 :: ModbusPoint where
  "overlap_d1 = \<lparr>label = ''D1'', method_pt = ''read_holding_registers'', offset = 1, size_pt = 2,
     fmt = ''s32'', mem = ''D'', plc_addr = 1\<rparr>"

text \<open>
  A mapping with one segment for the registers and one for the coils, and three rows of a
  configuration sheet: a register with the hint \<^verbatim>\<open>s16\<close>, a coil with the hint \<^verbatim>\<open>u16\<close> and a
  register without a hint.
\<close>

definition demo_mapping :: mapping_t where
  "demo_mapping =
     [''D'' \<mapsto> [\<lparr>plc_base = 0, mb_base = 0, count_seg = 100\<rparr>],
      ''M'' \<mapsto> [\<lparr>plc_base = 0, mb_base = 0, count_seg = 100\<rparr>]]"

definition demo_row_s16 :: config_row where
  "demo_row_s16 = \<lparr>row_mem = ''d'', row_plc_addr = PyInt 10, row_desc = Some ''temp'',
     row_type = PyStr ''s16''\<rparr>"

definition demo_row_coil :: config_row where
  "demo_row_coil = \<lparr>row_mem = ''M'', row_plc_addr = PyInt 5, row_desc = Some ''run'',
     row_type = PyStr ''u16''\<rparr>"

definition demo_row_blank :: config_row where
  "demo_row_blank = \<lparr>row_mem = ''D'', row_plc_addr = PyStr ''20'', row_desc = Some ''count'',
     row_type = NaN\<rparr>"

section \<open>One poll tick: the body of the loop of \<^verbatim>\<open>ModbusWorker.run\<close>\<close>

text \<open>
  What one read of the client gives: a response with \<^verbatim>\<open>isError()\<close> true, or a response
  with its \<^verbatim>\<open>bits\<close> and its \<^verbatim>\<open>registers\<close>. A reader stands for the device during one tick:
  it answers the call \<^verbatim>\<open>getattr(client, b.method)(b.start, count=b.count)\<close>.
\<close>

datatype response = IsError | Response "bool list" "int list"

type_synonym reader = "string \<Rightarrow> int \<Rightarrow> int \<Rightarrow> response"

text \<open>The dictionary that \<^verbatim>\<open>run\<close> stores for one batch in \<^verbatim>\<open>batch_data\<close>.\<close>

definition read_batch :: "reader \<Rightarrow> Batch \<Rightarrow> batch_data" where
  "read_batch rd b =
     (case rd (method_b b) (start b) (count_b b) of
        IsError \<Rightarrow> NoData
      | Response bits regs \<Rightarrow>
          (if bit_method (method_b b) then BitsData (start b) bits else RegsData (start b) regs))"

text \<open>
  \<^verbatim>\<open>batch_data[(b.method, b.start)] = ...\<close> for each batch in turn: a later batch with the
  same key replaces the entry of an earlier one.
\<close>

definition store_batch ::
  "reader \<Rightarrow> (string \<times> int \<rightharpoonup> batch_data) \<Rightarrow> Batch \<Rightarrow> (string \<times> int \<rightharpoonup> batch_data)" where
  "store_batch rd bd b = bd((method_b b, start b) \<mapsto> read_batch rd b)"

definition read_batches :: "reader \<Rightarrow> Batch list \<Rightarrow> (string \<times> int \<rightharpoonup> batch_data)" where
  "read_batches rd batches = foldl (store_batch rd) Map.empty batches"

text \<open>
  The value of one point: \<^verbatim>\<open>_batch_start\<close> may raise, which leaves the loop;
  \<^verbatim>\<open>batch_data.get(key, {})\<close> gives the empty dictionary for a missing key; an empty
  dictionary and every exception of \<^verbatim>\<open>_decode_value\<close> give the sentinel \<open>-1\<close>.
\<close>

definition point_value ::
  "Batch list \<Rightarrow> (string \<times> int \<rightharpoonup> batch_data) \<Rightarrow> ModbusPoint \<Rightarrow> py_exception + int" where
  "point_value batches bd pt =
     (case batch_start batches pt of
        Inl e \<Rightarrow> Inl e
      | Inr s \<Rightarrow>
          (let bdat = (case bd (method_pt pt, s) of None \<Rightarrow> NoData | Some d \<Rightarrow> d)
           in if bdat = NoData then Inr (- 1)
              else (case decode_value pt bdat of Inl e \<Rightarrow> Inr (- 1) | Inr v \<Rightarrow> Inr v)))"

fun row_values ::
  "Batch list \<Rightarrow> (string \<times> int \<rightharpoonup> batch_data) \<Rightarrow> ModbusPoint list \<Rightarrow> py_exception + int list" where
  "row_values batches bd [] = Inr []"
| "row_values batches bd (pt # pts) =
     (case point_value batches bd pt of
        Inl e \<Rightarrow> Inl e
      | Inr v \<Rightarrow>
          (case row_values batches bd pts of Inl e \<Rightarrow> Inl e | Inr vs \<Rightarrow> Inr (v # vs)))"

text \<open>One pass of the loop body: the row of values, or the exception that leaves the loop.\<close>

definition tick :: "Batch list \<Rightarrow> ModbusPoint list \<Rightarrow> reader \<Rightarrow> py_exception + int list" where
  "tick batches pts rd = row_values batches (read_batches rd batches) pts"

text \<open>
  The loop \<^verbatim>\<open>while self._running\<close> of a worker built from \<open>pts\<close> (its batches are
  \<open>make_batches pts\<close>), run against one reader for each tick until it is stopped: the rows
  it emits. An exception in a tick ends the loop.
\<close>

fun run_ticks :: "ModbusPoint list \<Rightarrow> reader list \<Rightarrow> int list list" where
  "run_ticks pts [] = []"
| "run_ticks pts (rd # rds) =
     (case tick (make_batches pts) pts rd of
        Inl e \<Rightarrow> []
      | Inr row_vals \<Rightarrow> row_vals # run_ticks pts rds)"

text \<open>
  A reader for the example points: the coil read fails, the register batch at 10 returns
  three words and the one at 20 returns one word.
\<close>

definition demo_reader :: reader where
  "demo_reader m s c =
     (if m = ''read_coils'' then IsError
      else Response [] (if s = 10 then [40000, 1, 2] else [65535]))"

text \<open>
  A 32-bit register at offset 0 and a 16-bit register at offset 1 (inside the footprint of
  the first), and a reader whose read at start 1 fails while the others return two words.
\<close>

definition overlap_d1_u16 :: ModbusPoint where
  "overlap_d1_u16 = \<lparr>label = ''D1'', method_pt = ''read_holding_registers'', offset = 1,
     size_pt = 1, fmt = ''u16'', mem = ''D'', plc_addr = 1\<rparr>"

definition overlap_reader :: reader where
  "overlap_reader m s c = (if s = 1 then IsError else Response [] [7, 9])"

section \<open>Facts about the decoder\<close>

lemma bit15_iff: "0 \<le> v \<Longrightarrow> v \<le> 65535 \<Longrightarrow> bit (v::int) 15 \<longleftrightarrow> 32768 \<le> v"
proof -
  assume a: "0 \<le> v" "v \<le> 65535"
  show ?thesis
  proof (cases "32768 \<le> v")
    case False
    then have "v div 32768 = 0" using a by (simp add: div_pos_pos_trivial)
    with False show ?thesis by (simp add: bit_iff_odd)
  next
    case True
    define r where "r = v - 32768"
    have r: "0 \<le> r" "r < 32768" using a True by (simp_all add: r_def)
    have "v = r + 32768" by (simp add: r_def)
    then have "v div 32768 = r div 32768 + 1" by simp
    also have "r div 32768 = 0" using r by (simp add: div_pos_pos_trivial)
    finally show ?thesis using True by (simp add: bit_iff_odd)
  qed
qed

lemma u16_to_s16_eq:
  "0 \<le> v \<Longrightarrow> v \<le> 65535 \<Longrightarrow> u16_to_s16 v = (if v < 32768 then v else v - 65536)"
  using and_exp_eq_0_iff_not_bit[of v 15] bit15_iff[of v] by (auto simp: u16_to_s16_def)

lemma u32_to_s32_eq: "u32_to_s32 x = (if bit x 31 then x - 4294967296 else x)"
  using and_exp_eq_0_iff_not_bit[of x 31] by (auto simp: u32_to_s32_def)

lemma py_index_nat: "i < length xs \<Longrightarrow> py_index xs (int i) = Inr (xs ! i)"
  by (simp add: py_index_def)

section \<open>Properties of the batching algorithm\<close>

lemma grouped_append_map:
  "distinct ks \<Longrightarrow>
   grouped_append (map (\<lambda>k. (k, f k)) ks) p =
     (if method_pt p \<in> set ks
      then map (\<lambda>k. (k, if k = method_pt p then f k @ [p] else f k)) ks
      else map (\<lambda>k. (k, f k)) ks @ [(method_pt p, [p])])"
  by (induction ks) auto

lemma grouped_snoc: "grouped (pts @ [p]) = grouped_append (grouped pts) p"
  by (simp add: grouped_def)

lemma method_keys_snoc:
  "method_keys (pts @ [p]) =
     (if method_pt p \<in> set (method_keys pts) then method_keys pts else method_keys pts @ [method_pt p])"
  by (auto simp: method_keys_def)

lemma distinct_method_keys: "distinct (method_keys pts)"
  by (simp add: method_keys_def)

lemma set_method_keys: "set (method_keys pts) = method_pt ` set pts"
  by (simp add: method_keys_def)

lemma grouped_eq:
  "grouped pts = map (\<lambda>k. (k, filter (\<lambda>p. method_pt p = k) pts)) (method_keys pts)"
proof (induction pts rule: rev_induct)
  case Nil
  show ?case by (simp add: grouped_def method_keys_def)
next
  case (snoc p pts)
  have notin: "method_pt p \<notin> method_pt ` set pts \<Longrightarrow> filter (\<lambda>q. method_pt q = method_pt p) pts = []"
    by (induction pts) auto
  show ?case
    unfolding grouped_snoc snoc.IH
    by (subst grouped_append_map[OF distinct_method_keys])
       (auto simp: method_keys_snoc set_method_keys notin)
qed

lemma make_batches_eq:
  "make_batches pts =
     concat (map (\<lambda>k. scan_batches k (sort_key offset (filter (\<lambda>p. method_pt p = k) pts)))
       (method_keys pts))"
  by (simp add: make_batches_def grouped_eq comp_def)


lemma extend_batch_append:
  "fst (snd (extend_batch e acc ps)) @ snd (snd (extend_batch e acc ps)) = acc @ ps"
  by (induction ps arbitrary: e acc) auto

lemma extend_batch_within:
  "\<forall>q\<in>set ps. 0 < size_pt q \<Longrightarrow> lo \<le> e \<Longrightarrow>
   \<forall>q\<in>set acc. lo \<le> offset q \<and> offset q + size_pt q \<le> e \<Longrightarrow>
   e \<le> fst (extend_batch e acc ps) \<and>
   (\<forall>q\<in>set (fst (snd (extend_batch e acc ps))).
      lo \<le> offset q \<and> offset q + size_pt q \<le> fst (extend_batch e acc ps))"
proof (induction ps arbitrary: e acc)
  case Nil
  then show ?case by simp
next
  case (Cons p ps)
  show ?case
  proof (cases "offset p = e")
    case False
    with Cons.prems show ?thesis by simp
  next
    case True
    have sz: "0 < size_pt p" using Cons.prems(1) by simp
    have "e + size_pt p \<le> fst (extend_batch (e + size_pt p) (acc @ [p]) ps) \<and>
      (\<forall>q\<in>set (fst (snd (extend_batch (e + size_pt p) (acc @ [p]) ps))).
        lo \<le> offset q \<and> offset q + size_pt q \<le> fst (extend_batch (e + size_pt p) (acc @ [p]) ps))"
    proof (rule Cons.IH)
      show "\<forall>q\<in>set ps. 0 < size_pt q" using Cons.prems(1) by simp
      show "lo \<le> e + size_pt p" using Cons.prems(2) sz by simp
      show "\<forall>q\<in>set (acc @ [p]). lo \<le> offset q \<and> offset q + size_pt q \<le> e + size_pt p"
        using Cons.prems(2,3) sz True by auto
    qed
    with True sz show ?thesis by simp
  qed
qed

lemma extend_batch_rest_ge:
  "sorted_wrt ends_before ps \<Longrightarrow> \<forall>q\<in>set ps. e \<le> offset q \<Longrightarrow>
   \<forall>q\<in>set (snd (snd (extend_batch e acc ps))). fst (extend_batch e acc ps) \<le> offset q"
proof (induction ps arbitrary: e acc)
  case Nil
  then show ?case by simp
next
  case (Cons p ps)
  show ?case
  proof (cases "offset p = e")
    case False
    with Cons.prems show ?thesis by simp
  next
    case True
    have "\<forall>q\<in>set ps. e + size_pt p \<le> offset q"
      using Cons.prems(1) True by (auto simp: ends_before_def)
    moreover have "sorted_wrt ends_before ps" using Cons.prems(1) by simp
    ultimately have "\<forall>q\<in>set (snd (snd (extend_batch (e + size_pt p) (acc @ [p]) ps))).
        fst (extend_batch (e + size_pt p) (acc @ [p]) ps) \<le> offset q"
      by (rule Cons.IH[rotated])
    with True show ?thesis by simp
  qed
qed

lemma extend_batch_rest_subset:
  "set (snd (snd (extend_batch e [p] ps))) \<subseteq> set (p # ps)"
proof -
  have "set (fst (snd (extend_batch e [p] ps)) @ snd (snd (extend_batch e [p] ps))) = set (p # ps)"
    by (simp only: extend_batch_append) simp
  then show ?thesis by auto
qed

lemma extend_batch_rest_sorted:
  assumes "sorted_wrt R (p # ps)"
  shows "sorted_wrt R (snd (snd (extend_batch e [p] ps)))"
proof -
  have "sorted_wrt R (fst (snd (extend_batch e [p] ps)) @ snd (snd (extend_batch e [p] ps)))"
    using assms by (simp only: extend_batch_append) simp
  then show ?thesis by (simp add: sorted_wrt_append)
qed

lemma scan_batches_concat: "concat (map points (scan_batches m ps)) = ps"
proof (induction m ps rule: scan_batches.induct)
  case (1 m)
  show ?case by simp
next
  case (2 m p ps)
  from 2[OF refl] show ?case
    using extend_batch_append[of "offset p + size_pt p" "[p]" ps] by (simp add: Let_def)
qed

lemma scan_batches_method: "b \<in> set (scan_batches m ps) \<Longrightarrow> method_b b = m"
proof (induction m ps rule: scan_batches.induct)
  case (1 m)
  then show ?case by simp
next
  case (2 m p ps)
  from 2(2) 2(1)[OF refl] show ?case by (auto simp: Let_def)
qed

lemma scan_batches_start_in:
  "b \<in> set (scan_batches m ps) \<Longrightarrow> \<exists>q\<in>set ps. start b = offset q"
proof (induction m ps rule: scan_batches.induct)
  case (1 m)
  then show ?case by simp
next
  case (2 m p ps)
  show ?case
  proof (cases "b \<in> set (scan_batches m (snd (snd (extend_batch (offset p + size_pt p) [p] ps))))")
    case True
    from 2(1)[OF refl True] extend_batch_rest_subset[of "offset p + size_pt p" p ps]
    show ?thesis by auto
  next
    case False
    with 2(2) show ?thesis by (auto simp: Let_def)
  qed
qed

lemma scan_batches_within:
  "\<forall>q\<in>set ps. 0 < size_pt q \<Longrightarrow> b \<in> set (scan_batches m ps) \<Longrightarrow> q \<in> set (points b) \<Longrightarrow>
   0 < count_b b \<and> start b \<le> offset q \<and> offset q + size_pt q \<le> start b + count_b b"
proof (induction m ps rule: scan_batches.induct)
  case (1 m)
  then show ?case by simp
next
  case (2 m p ps)
  let ?r = "extend_batch (offset p + size_pt p) [p] ps"
  show ?case
  proof (cases "b \<in> set (scan_batches m (snd (snd ?r)))")
    case True
    have "\<forall>q\<in>set (snd (snd ?r)). 0 < size_pt q"
      using 2(2) extend_batch_rest_subset[of "offset p + size_pt p" p ps] by blast
    from 2(1)[OF refl this True 2(4)] show ?thesis .
  next
    case False
    with 2(3) have b: "b = \<lparr>method_b = m, start = offset p, count_b = fst ?r - offset p, points = fst (snd ?r)\<rparr>"
      by (auto simp: Let_def)
    have sz: "0 < size_pt p" using 2(2) by simp
    have "offset p + size_pt p \<le> fst ?r \<and>
      (\<forall>q\<in>set (fst (snd ?r)). offset p \<le> offset q \<and> offset q + size_pt q \<le> fst ?r)"
      by (rule extend_batch_within) (use 2(2) sz in auto)
    with 2(4) sz show ?thesis by (auto simp: b)
  qed
qed

lemma scan_batches_sorted:
  "sorted_wrt ends_before ps \<Longrightarrow> \<forall>q\<in>set ps. 0 < size_pt q \<Longrightarrow>
   sorted_wrt (\<lambda>a b. start a + count_b a \<le> start b) (scan_batches m ps)"
proof (induction m ps rule: scan_batches.induct)
  case (1 m)
  show ?case by simp
next
  case (2 m p ps)
  let ?r = "extend_batch (offset p + size_pt p) [p] ps"
  have sub: "set (snd (snd ?r)) \<subseteq> set (p # ps)" by (rule extend_batch_rest_subset)
  have srt: "sorted_wrt ends_before (snd (snd ?r))"
    using 2(2) by (rule extend_batch_rest_sorted)
  have pos: "\<forall>q\<in>set (snd (snd ?r)). 0 < size_pt q" using 2(3) sub by blast
  have IH: "sorted_wrt (\<lambda>a b. start a + count_b a \<le> start b) (scan_batches m (snd (snd ?r)))"
    by (rule 2(1)[OF refl srt pos])
  have ge: "\<forall>q\<in>set (snd (snd ?r)). fst ?r \<le> offset q"
  proof (rule extend_batch_rest_ge)
    show "sorted_wrt ends_before ps" using 2(2) by simp
    have "\<forall>q\<in>set ps. ends_before p q" using 2(2) by simp
    then show "\<forall>q\<in>set ps. offset p + size_pt p \<le> offset q" by (simp add: ends_before_def)
  qed
  have "\<forall>b\<in>set (scan_batches m (snd (snd ?r))). fst ?r \<le> start b"
    using scan_batches_start_in ge by fastforce
  with IH show ?case by (simp add: Let_def)
qed

lemma non_overlapping_iff:
  "non_overlapping pts \<longleftrightarrow>
     sorted_wrt (\<lambda>p q. method_pt q = method_pt p \<longrightarrow> pt_disjoint p q) pts"
  by (induction pts) (auto simp: list_all_iff)

lemma sorted_wrt_sym_iff:
  assumes "\<And>x y. R x y \<Longrightarrow> R y x" and "\<And>x. x \<in> set xs \<Longrightarrow> \<not> R x x"
  shows "sorted_wrt R xs \<longleftrightarrow> distinct xs \<and> (\<forall>x\<in>set xs. \<forall>y\<in>set xs. x \<noteq> y \<longrightarrow> R x y)"
  using assms(2)
proof (induction xs)
  case Nil
  show ?case by simp
next
  case (Cons a xs)
  have IH: "sorted_wrt R xs \<longleftrightarrow> distinct xs \<and> (\<forall>x\<in>set xs. \<forall>y\<in>set xs. x \<noteq> y \<longrightarrow> R x y)"
    using Cons by simp
  have na: "\<not> R a a" using Cons.prems by simp
  show ?case
    unfolding sorted_wrt.simps IH using na assms(1) by auto
qed

lemma sorted_wrt_pairs:
  "sorted_wrt R xs \<Longrightarrow> a \<in> set xs \<Longrightarrow> b \<in> set xs \<Longrightarrow> a = b \<or> R a b \<or> R b a"
  by (induction xs) auto

lemma non_overlapping_pairs:
  assumes "non_overlapping pts" and "list_all (\<lambda>p. 0 < size_pt p) pts"
  shows "distinct pts"
    and "\<And>x y. x \<in> set pts \<Longrightarrow> y \<in> set pts \<Longrightarrow> x \<noteq> y \<Longrightarrow> method_pt x = method_pt y \<Longrightarrow> pt_disjoint x y"
proof -
  let ?R = "\<lambda>p q. method_pt q = method_pt p \<longrightarrow> pt_disjoint p q"
  have sym: "\<And>x y. ?R x y \<Longrightarrow> ?R y x" by (auto simp: pt_disjoint_def)
  have irr: "\<And>x. x \<in> set pts \<Longrightarrow> \<not> ?R x x"
    using assms(2) by (auto simp: pt_disjoint_def list_all_iff)
  have "sorted_wrt ?R pts" using assms(1) by (simp add: non_overlapping_iff)
  then have *: "distinct pts \<and> (\<forall>x\<in>set pts. \<forall>y\<in>set pts. x \<noteq> y \<longrightarrow> ?R x y)"
    using sorted_wrt_sym_iff[of ?R pts, OF sym irr] by blast
  then show "distinct pts" by simp
  show "\<And>x y. x \<in> set pts \<Longrightarrow> y \<in> set pts \<Longrightarrow> x \<noteq> y \<Longrightarrow> method_pt x = method_pt y \<Longrightarrow> pt_disjoint x y"
    using * by metis
qed

lemma sorted_disjoint_chain:
  "sorted (map offset s) \<Longrightarrow> distinct s \<Longrightarrow>
   (\<forall>x\<in>set s. \<forall>y\<in>set s. x \<noteq> y \<longrightarrow> pt_disjoint x y) \<Longrightarrow>
   \<forall>x\<in>set s. 0 < size_pt x \<Longrightarrow> sorted_wrt ends_before s"
proof (induction s)
  case Nil
  show ?case by simp
next
  case (Cons a s)
  have "ends_before a y" if "y \<in> set s" for y
  proof -
    have "a \<noteq> y" using Cons.prems(2) that by auto
    then have "pt_disjoint a y" using Cons.prems(3) that by simp
    moreover have "offset a \<le> offset y" using Cons.prems(1) that by simp
    moreover have "0 < size_pt y" using Cons.prems(4) that by simp
    ultimately show ?thesis by (auto simp: pt_disjoint_def ends_before_def)
  qed
  moreover have "sorted_wrt ends_before s" using Cons by simp
  ultimately show ?case by simp
qed

lemma set_group_sorted: "set (group_sorted pts k) = {p \<in> set pts. method_pt p = k}"
  by (simp add: group_sorted_def)

lemma group_sorted_chain:
  assumes "non_overlapping pts" and "list_all (\<lambda>p. 0 < size_pt p) pts"
  shows "sorted_wrt ends_before (group_sorted pts k)"
proof (rule sorted_disjoint_chain)
  show "sorted (map offset (group_sorted pts k))" by (simp add: group_sorted_def)
  show "distinct (group_sorted pts k)"
    using non_overlapping_pairs(1)[OF assms] by (simp add: group_sorted_def)
  show "\<forall>x\<in>set (group_sorted pts k). \<forall>y\<in>set (group_sorted pts k). x \<noteq> y \<longrightarrow> pt_disjoint x y"
    using non_overlapping_pairs(2)[OF assms] by (simp add: set_group_sorted)
  show "\<forall>x\<in>set (group_sorted pts k). 0 < size_pt x"
    using assms(2) by (simp add: set_group_sorted list_all_iff)
qed

lemma make_batches_groups:
  "make_batches pts = concat (map (\<lambda>k. scan_batches k (group_sorted pts k)) (method_keys pts))"
  by (simp add: make_batches_eq group_sorted_def)

lemma in_make_batches_iff:
  "b \<in> set (make_batches pts) \<longleftrightarrow>
     method_b b \<in> method_pt ` set pts \<and> b \<in> set (scan_batches (method_b b) (group_sorted pts (method_b b)))"
  using scan_batches_method by (auto simp: make_batches_groups set_method_keys)

lemma filter_make_batches:
  "filter (\<lambda>b. method_b b = m) (make_batches pts) =
     (if m \<in> method_pt ` set pts then scan_batches m (group_sorted pts m) else [])"
proof -
  have gen: "distinct ks \<Longrightarrow>
     filter (\<lambda>b. method_b b = m) (concat (map (\<lambda>k. scan_batches k (group_sorted pts k)) ks)) =
       (if m \<in> set ks then scan_batches m (group_sorted pts m) else [])" for ks
  proof (induction ks)
    case Nil
    show ?case by simp
  next
    case (Cons k ks)
    have same: "filter (\<lambda>b. method_b b = m) (scan_batches m (group_sorted pts m)) = scan_batches m (group_sorted pts m)"
      using scan_batches_method by (auto simp: filter_id_conv)
    have other: "k \<noteq> m \<Longrightarrow> filter (\<lambda>b. method_b b = m) (scan_batches k (group_sorted pts k)) = []"
      using scan_batches_method by (auto simp: filter_empty_conv)
    show ?case using Cons same other by auto
  qed
  show ?thesis
    using gen[OF distinct_method_keys[of pts]] by (simp add: make_batches_groups set_method_keys)
qed

lemma make_batches_members:
  assumes "b \<in> set (make_batches pts)" and "q \<in> set (points b)"
  shows "q \<in> set pts \<and> method_pt q = method_b b"
proof -
  let ?k = "method_b b"
  have "b \<in> set (scan_batches ?k (group_sorted pts ?k))"
    using assms(1) by (simp add: in_make_batches_iff)
  then have "set (points b) \<subseteq> set (concat (map points (scan_batches ?k (group_sorted pts ?k))))"
    by auto
  then have "q \<in> set (group_sorted pts ?k)" using assms(2) by (auto simp only: scan_batches_concat)
  then show ?thesis by (simp add: set_group_sorted)
qed

lemma make_batches_covers:
  assumes "p \<in> set pts"
  shows "\<exists>b\<in>set (make_batches pts). p \<in> set (points b)"
proof -
  let ?k = "method_pt p"
  have "p \<in> set (concat (map points (scan_batches ?k (group_sorted pts ?k))))"
    using assms by (simp only: scan_batches_concat) (simp add: set_group_sorted)
  then obtain b where b: "b \<in> set (scan_batches ?k (group_sorted pts ?k))" "p \<in> set (points b)"
    by auto
  then have "method_b b = ?k" using scan_batches_method by blast
  with b assms have "b \<in> set (make_batches pts)" by (auto simp: in_make_batches_iff)
  with b show ?thesis by blast
qed

lemma make_batches_within:
  assumes "list_all (\<lambda>p. 0 < size_pt p) pts" and "b \<in> set (make_batches pts)" and "q \<in> set (points b)"
  shows "0 < count_b b \<and> start b \<le> offset q \<and> offset q + size_pt q \<le> start b + count_b b"
proof (rule scan_batches_within)
  show "\<forall>q\<in>set (group_sorted pts (method_b b)). 0 < size_pt q"
    using assms(1) by (simp add: set_group_sorted list_all_iff)
  show "b \<in> set (scan_batches (method_b b) (group_sorted pts (method_b b)))"
    using assms(2) by (simp add: in_make_batches_iff)
  show "q \<in> set (points b)" by fact
qed

lemma make_batches_sorted:
  assumes "non_overlapping pts" and "list_all (\<lambda>p. 0 < size_pt p) pts"
  shows "sorted_wrt (\<lambda>a b. start a + count_b a \<le> start b)
           (filter (\<lambda>b. method_b b = m) (make_batches pts))"
proof -
  have "sorted_wrt (\<lambda>a b. start a + count_b a \<le> start b) (scan_batches m (group_sorted pts m))"
    by (rule scan_batches_sorted[OF group_sorted_chain[OF assms]])
       (use assms(2) in \<open>simp add: set_group_sorted list_all_iff\<close>)
  then show ?thesis by (simp add: filter_make_batches)
qed

lemma make_batches_range_unique:
  assumes "non_overlapping pts" and "list_all (\<lambda>p. 0 < size_pt p) pts"
    and "b1 \<in> set (make_batches pts)" and "b2 \<in> set (make_batches pts)"
    and "method_b b1 = method_b b2"
    and "start b1 \<le> x" "x < start b1 + count_b b1"
    and "start b2 \<le> x" "x < start b2 + count_b b2"
  shows "b1 = b2"
proof -
  let ?F = "filter (\<lambda>b. method_b b = method_b b1) (make_batches pts)"
  have "b1 \<in> set ?F" "b2 \<in> set ?F" using assms(3,4,5) by simp_all
  from sorted_wrt_pairs[OF make_batches_sorted[OF assms(1,2)] this]
  show ?thesis using assms(6-9) by auto
qed

lemma scan_batches_count_pos:
  "\<forall>q\<in>set ps. 0 < size_pt q \<Longrightarrow> b \<in> set (scan_batches m ps) \<Longrightarrow> 0 < count_b b"
proof -
  assume a: "\<forall>q\<in>set ps. 0 < size_pt q" "b \<in> set (scan_batches m ps)"
  have "points b \<noteq> []"
    using a(2)
  proof (induction m ps rule: scan_batches.induct)
    case (1 m)
    then show ?case by simp
  next
    case (2 m p ps)
    let ?r = "extend_batch (offset p + size_pt p) [p] ps"
    have ne: "fst (snd (extend_batch e (x # acc) qs)) \<noteq> []" for e x acc qs
      by (induction qs arbitrary: e acc x) auto
    show ?case
    proof (cases "b \<in> set (scan_batches m (snd (snd ?r)))")
      case True
      from 2(1)[OF refl True] show ?thesis .
    next
      case False
      with 2(2) show ?thesis using ne[of "offset p + size_pt p" p "[]" ps] by (auto simp: Let_def)
    qed
  qed
  then obtain q where "q \<in> set (points b)" by (cases "points b") auto
  from scan_batches_within[OF a this] show ?thesis by simp
qed

lemma make_batches_count_pos:
  assumes "list_all (\<lambda>p. 0 < size_pt p) pts" and "b \<in> set (make_batches pts)"
  shows "0 < count_b b"
proof (rule scan_batches_count_pos)
  show "\<forall>q\<in>set (group_sorted pts (method_b b)). 0 < size_pt q"
    using assms(1) by (simp add: set_group_sorted list_all_iff)
  show "b \<in> set (scan_batches (method_b b) (group_sorted pts (method_b b)))"
    using assms(2) by (simp add: in_make_batches_iff)
qed

lemma sort_key_unique:
  assumes "mset xs = mset ys" and "distinct xs" and "inj_on f (set xs)"
  shows "sort_key f xs = sort_key f ys"
proof -
  let ?s = "sort_key f xs" and ?t = "sort_key f ys"
  have sets: "set ys = set xs" using assms(1) by (metis set_mset_mset)
  have dys: "distinct ys" using assms(1,2) by (metis mset_eq_imp_distinct_iff)
  have ds: "distinct (map f ?s)" using assms(2,3) by (simp add: distinct_map)
  have dt: "distinct (map f ?t)" using dys assms(3) sets by (simp add: distinct_map)
  have "set (map f ?s) = set (map f ?t)" using sets by simp
  moreover have "sorted (map f ?s)" "sorted (map f ?t)" by simp_all
  ultimately have "map f ?s = map f ?t"
    using ds dt by (intro sorted_distinct_set_unique)
  moreover have "inj_on f (set ?s \<union> set ?t)" using assms(3) sets by simp
  ultimately show ?thesis by (simp add: inj_on_map_eq_map)
qed

lemma group_sorted_perm:
  assumes "non_overlapping pts" and "list_all (\<lambda>p. 0 < size_pt p) pts" and "mset pts' = mset pts"
  shows "group_sorted pts' k = group_sorted pts k"
proof -
  let ?v = "filter (\<lambda>p. method_pt p = k) pts" and ?v' = "filter (\<lambda>p. method_pt p = k) pts'"
  have m: "mset ?v = mset ?v'" using assms(3) by simp
  have d: "distinct ?v" using non_overlapping_pairs(1)[OF assms(1,2)] by simp
  have inj: "inj_on offset (set ?v)"
  proof (rule inj_onI)
    fix x y assume x: "x \<in> set ?v" and y: "y \<in> set ?v" and e: "offset x = offset y"
    show "x = y"
    proof (rule ccontr)
      assume "x \<noteq> y"
      then have "pt_disjoint x y"
        using non_overlapping_pairs(2)[OF assms(1,2), of x y] x y by simp
      moreover have "0 < size_pt x" "0 < size_pt y"
        using assms(2) x y by (simp_all add: list_all_iff)
      ultimately show False using e by (simp add: pt_disjoint_def)
    qed
  qed
  show ?thesis
    unfolding group_sorted_def by (rule sort_key_unique[OF m d inj, symmetric])
qed

lemma set_make_batches_perm:
  assumes "non_overlapping pts" and "list_all (\<lambda>p. 0 < size_pt p) pts" and "mset pts' = mset pts"
  shows "set (make_batches pts') = set (make_batches pts)"
proof -
  have "set pts' = set pts" using assms(3) by (metis set_mset_mset)
  then show ?thesis
    by (auto simp: in_make_batches_iff group_sorted_perm[OF assms])
qed

lemma batch_start_finds:
  "\<exists>b\<in>set bs. method_b b = method_pt pt \<and> start b \<le> offset pt \<and> offset pt < start b + count_b b \<Longrightarrow>
   \<exists>b\<in>set bs. method_b b = method_pt pt \<and> start b \<le> offset pt \<and> offset pt < start b + count_b b
      \<and> batch_start bs pt = Inr (start b)"
  by (induction bs) auto

lemma batch_start_member:
  assumes "non_overlapping pts" and "list_all (\<lambda>p. 0 < size_pt p) pts"
    and "b \<in> set (make_batches pts)" and "pt \<in> set (points b)"
  shows "batch_start (make_batches pts) pt = Inr (start b)"
proof -
  have pt: "pt \<in> set pts" "method_pt pt = method_b b" using make_batches_members[OF assms(3,4)] by simp_all
  have pos: "0 < size_pt pt" using assms(2) pt(1) by (simp add: list_all_iff)
  have mb: "method_b b = method_pt pt \<and> start b \<le> offset pt \<and> offset pt < start b + count_b b"
    using pt make_batches_within[OF assms(2,3,4)] pos by simp
  with assms(3) have "\<exists>b\<in>set (make_batches pts).
      method_b b = method_pt pt \<and> start b \<le> offset pt \<and> offset pt < start b + count_b b" by blast
  from batch_start_finds[OF this] obtain b' where
    b': "b' \<in> set (make_batches pts)" "method_b b' = method_pt pt" "start b' \<le> offset pt"
      "offset pt < start b' + count_b b'" "batch_start (make_batches pts) pt = Inr (start b')"
    by blast
  have "b' = b"
    by (rule make_batches_range_unique[OF assms(1,2) b'(1) assms(3), of "offset pt"])
       (use b' mb in auto)
  with b'(5) show ?thesis by simp
qed

lemma store_batch_apply:
  "store_batch rd bd b k = (if k = (method_b b, start b) then Some (read_batch rd b) else bd k)"
  by (simp add: store_batch_def)

lemma read_batches_lookup:
  "(\<forall>b1\<in>set bs. \<forall>b2\<in>set bs. method_b b1 = method_b b2 \<and> start b1 = start b2 \<longrightarrow> b1 = b2) \<Longrightarrow>
   b \<in> set bs \<Longrightarrow> foldl (store_batch rd) m bs (method_b b, start b) = Some (read_batch rd b)"
proof (induction bs rule: rev_induct)
  case Nil
  then show ?case by simp
next
  case (snoc x bs)
  define M where "M = foldl (store_batch rd) m bs"
  have step: "foldl (store_batch rd) m (bs @ [x]) = store_batch rd M x" by (simp add: M_def)
  show ?case
  proof (cases "method_b b = method_b x \<and> start b = start x")
    case True
    have "x \<in> set (bs @ [x])" by simp
    with snoc.prems True have "b = x" by blast
    then show ?thesis unfolding step by (simp add: store_batch_apply)
  next
    case False
    with snoc.prems have "b \<in> set bs" by auto
    moreover have "\<forall>b1\<in>set bs. \<forall>b2\<in>set bs. method_b b1 = method_b b2 \<and> start b1 = start b2 \<longrightarrow> b1 = b2"
      using snoc.prems(1) by simp
    ultimately have "M (method_b b, start b) = Some (read_batch rd b)"
      unfolding M_def by (rule snoc.IH[rotated])
    with False show ?thesis unfolding step by (auto simp: store_batch_apply)
  qed
qed

lemma make_batches_keys_unique:
  assumes "non_overlapping pts" and "list_all (\<lambda>p. 0 < size_pt p) pts"
    and "b1 \<in> set (make_batches pts)" and "b2 \<in> set (make_batches pts)"
    and "method_b b1 = method_b b2 \<and> start b1 = start b2"
  shows "b1 = b2"
  by (rule make_batches_range_unique[OF assms(1-4), of "start b1"])
     (use assms(5) make_batches_count_pos[OF assms(2,3)] make_batches_count_pos[OF assms(2,4)] in auto)

lemma point_value_member:
  assumes "non_overlapping pts" and "list_all (\<lambda>p. 0 < size_pt p) pts"
    and "b \<in> set (make_batches pts)" and "pt \<in> set (points b)"
  shows "point_value (make_batches pts) (read_batches rd (make_batches pts)) pt =
           Inr (case read_batch rd b of
                  NoData \<Rightarrow> - 1
                | d \<Rightarrow> (case decode_value pt (read_batch rd b) of Inl e \<Rightarrow> - 1 | Inr v \<Rightarrow> v))"
proof -
  have m: "method_pt pt = method_b b" using make_batches_members[OF assms(3,4)] by simp
  have "read_batches rd (make_batches pts) (method_b b, start b) = Some (read_batch rd b)"
    unfolding read_batches_def
    by (rule read_batches_lookup[OF _ assms(3)]) (use make_batches_keys_unique[OF assms(1,2)] in blast)
  then show ?thesis
    by (cases "read_batch rd b")
       (auto simp: point_value_def batch_start_member[OF assms] m split: sum.splits)
qed

lemma row_values_all:
  "\<forall>pt\<in>set ps. point_value bs bd pt = Inr (g pt) \<Longrightarrow> row_values bs bd ps = Inr (map g ps)"
  by (induction ps) auto

lemma decode_value_in_range:
  assumes "0 < size_pt pt" and "st \<le> offset pt" and "offset pt + size_pt pt \<le> st + c"
  shows "(bit_method (method_pt pt) \<and> c \<le> int (length bits) \<longrightarrow>
            (\<exists>v. decode_value pt (BitsData st bits) = Inr v))
       \<and> (\<not> bit_method (method_pt pt) \<and> c \<le> int (length regs) \<longrightarrow>
            (\<exists>v. decode_value pt (RegsData st regs) = Inr v))"
proof (intro conjI impI)
  define i where "i = nat (offset pt - st)"
  have i: "offset pt - st = int i" using assms(2) by (simp add: i_def)
  {
    assume h: "bit_method (method_pt pt) \<and> c \<le> int (length bits)"
    then have "i < length bits" using assms i by linarith
    then show "\<exists>v. decode_value pt (BitsData st bits) = Inr v"
      using h by (simp add: decode_value_def i py_index_nat)
  }
  {
    assume h: "\<not> bit_method (method_pt pt) \<and> c \<le> int (length regs)"
    then have lt: "i < length regs" using assms i by linarith
    show "\<exists>v. decode_value pt (RegsData st regs) = Inr v"
    proof (cases "size_pt pt = 1")
      case True
      then show ?thesis using h lt by (simp add: decode_value_def i py_index_nat)
    next
      case False
      then have "Suc i < length regs" using h assms i by linarith
      then have "py_index regs (int i + 1) = Inr (regs ! Suc i)"
        using py_index_nat[of "Suc i" regs] by (simp add: add.commute)
      then show ?thesis using h lt False by (simp add: decode_value_def i py_index_nat)
    qed
  }
qed

section \<open>Facts about the text functions\<close>

lemma upper_char_hex: "upper_char c \<in> set ''ABCDEF'' \<longleftrightarrow> c \<in> set ''ABCDEFabcdef''"
  by (simp add: upper_char_def)

lemma has_hex_letter_iff:
  "list_ex (\<lambda>c. c \<in> set (upper t)) ''ABCDEF'' \<longleftrightarrow> list_ex (\<lambda>c. c \<in> set ''ABCDEFabcdef'') t"
proof -
  have "list_ex (\<lambda>c. c \<in> set (upper t)) ''ABCDEF'' \<longleftrightarrow> (\<exists>c\<in>set t. upper_char c \<in> set ''ABCDEF'')"
    unfolding list_ex_iff upper_def set_map by blast
  also have "\<dots> \<longleftrightarrow> (\<exists>c\<in>set t. c \<in> set ''ABCDEFabcdef'')"
    by (simp only: upper_char_hex)
  finally show ?thesis by (simp only: list_ex_iff)
qed

lemma py_int_float_trunc:
  "\<bar>real_of_int (py_int_float x)\<bar> \<le> \<bar>x\<bar> \<and> \<bar>x\<bar> < \<bar>real_of_int (py_int_float x)\<bar> + 1
   \<and> 0 \<le> real_of_int (py_int_float x) * x"
proof (cases "0 \<le> x")
  case True
  then have "0 \<le> \<lfloor>x\<rfloor>" by simp
  with True show ?thesis by (simp add: py_int_float_def)
next
  case False
  then have "\<lceil>x\<rceil> \<le> 0" by (simp add: ceiling_le_iff)
  with False show ?thesis
    by (simp add: py_int_float_def mult_nonpos_nonpos) linarith
qed

lemma strip_1E5: "strip ''1E5'' = ''1E5''" by (simp add: strip_def isspace_def)

lemma int_text_16_1E5: "int_text 16 ''1E5'' = Inr 485"
  by (simp add: strip_def isspace_def int_text_def skip_sign_def skip_hex_prefix_def digit_of_def)

lemma int_text_10_1E5: "int_text 10 ''1E5'' = Inl ValueError"
  by (simp add: strip_def isspace_def int_text_def skip_sign_def digit_of_def)

lemma digit_char_in: "n < 10 \<Longrightarrow> ''0123456789'' ! n \<in> set ''0123456789''"
  by (rule nth_mem) simp

lemma str_nat_chars: "set (str_nat n) \<subseteq> set ''0123456789''"
proof (induction n rule: str_nat.induct)
  case (1 n)
  show ?case
  proof (cases "n < 10")
    case True
    then show ?thesis using digit_char_in[of n] by (subst str_nat.simps) simp
  next
    case False
    have "n mod 10 < 10" by simp
    then have "''0123456789'' ! (n mod 10) \<in> set ''0123456789''" by (rule digit_char_in)
    with False 1 show ?thesis by (subst str_nat.simps) simp
  qed
qed

lemma str_nat_ne: "str_nat n \<noteq> []"
  by (subst str_nat.simps) simp

lemma str_int_chars: "set (str_int i) \<subseteq> set ''-0123456789''"
proof -
  have e: "set ''-0123456789'' = insert (CHR ''-'') (set ''0123456789'')"
    by (simp only: list.set)
  show ?thesis
  proof (cases "i < 0")
    case True
    then have "set (str_int i) = insert (CHR ''-'') (set (str_nat (nat (- i))))"
      by (simp only: str_int_def if_True list.set)
    then show ?thesis unfolding e using str_nat_chars[of "nat (- i)"] by (simp only: insert_mono)
  next
    case False
    then have "set (str_int i) = set (str_nat (nat i))"
      by (simp only: str_int_def if_False)
    then show ?thesis unfolding e using str_nat_chars[of "nat i"] by (simp only: subset_insertI2)
  qed
qed

lemma digit_char_eq:
  "n < 10 \<Longrightarrow> m < 10 \<Longrightarrow> ''0123456789'' ! n = ''0123456789'' ! m \<longleftrightarrow> n = m"
  by (rule nth_eq_iff_index_eq) simp_all

lemma str_nat_single: "str_nat k = [c] \<Longrightarrow> k < 10 \<and> c = ''0123456789'' ! k"
proof (cases "k < 10")
  case True
  assume "str_nat k = [c]"
  with True show ?thesis by (subst (asm) str_nat.simps) simp
next
  case False
  assume "str_nat k = [c]"
  with False have "str_nat (k div 10) = []" by (subst (asm) str_nat.simps) simp
  with str_nat_ne show ?thesis by blast
qed

lemma str_nat_16: "str_nat m = ''16'' \<longleftrightarrow> m = 16"
proof
  assume "m = 16"
  then show "str_nat m = ''16''" by (simp add: str_nat.simps)
next
  assume a: "str_nat m = ''16''"
  show "m = 16"
  proof (cases "m < 10")
    case True
    with a show ?thesis by (subst (asm) str_nat.simps) simp
  next
    case False
    with a have b: "str_nat (m div 10) = [CHR ''1'']" "''0123456789'' ! (m mod 10) = CHR ''6''"
      by (subst (asm) str_nat.simps, simp)+
    from str_nat_single[OF b(1)] have k: "m div 10 < 10" "''0123456789'' ! (m div 10) = ''0123456789'' ! 1"
      by simp_all
    have "m div 10 = 1" using digit_char_eq[of "m div 10" 1] k by simp
    moreover have "m mod 10 = 6" using digit_char_eq[of "m mod 10" 6] b(2) by simp
    ultimately show ?thesis by presburger
  qed
qed

lemma str_int_16: "str_int i = ''16'' \<longleftrightarrow> i = 16"
proof (cases "i < 0")
  case True
  then show ?thesis by (simp add: str_int_def)
next
  case False
  then show ?thesis by (auto simp: str_int_def str_nat_16)
qed

lemma not_space_strip:
  assumes "\<forall>c\<in>set s. \<not> isspace c"
  shows "strip s = s"
proof -
  have dw: "dropWhile isspace t = t" if "\<forall>c\<in>set t. \<not> isspace c" for t
    using that by (cases t) simp_all
  have "dropWhile isspace s = s" using assms by (rule dw)
  moreover have "dropWhile isspace (rev s) = rev s" by (rule dw) (use assms in simp)
  ultimately show ?thesis by (simp add: strip_def)
qed

lemma plain_chars:
  assumes "c \<in> set ''-0123456789''"
  shows "\<not> isspace c" and "lower_char c = c"
proof -
  have d: "c = CHR ''-'' \<or> c = CHR ''0'' \<or> c = CHR ''1'' \<or> c = CHR ''2'' \<or> c = CHR ''3''
      \<or> c = CHR ''4'' \<or> c = CHR ''5'' \<or> c = CHR ''6'' \<or> c = CHR ''7'' \<or> c = CHR ''8''
      \<or> c = CHR ''9''"
    using assms by simp
  from d show "\<not> isspace c" by (elim disjE) (simp_all add: isspace_def)
  from d show "lower_char c = c" by (elim disjE) (simp_all add: lower_char_def)
qed

lemma str_int_plain: "strip (str_int i) = str_int i" "lower (str_int i) = str_int i"
proof -
  show "strip (str_int i) = str_int i"
    by (rule not_space_strip) (use str_int_chars plain_chars(1) in blast)
  show "lower (str_int i) = str_int i"
    unfolding lower_def by (rule map_idI) (use str_int_chars plain_chars(2) in blast)
qed

lemma str_int_not_word:
  "str_int i \<noteq> ''s16''" "str_int i \<noteq> ''int16''" "str_int i \<noteq> ''u16''" "str_int i \<noteq> ''uint16''"
proof -
  have "CHR ''s'' \<notin> set ''-0123456789''" "CHR ''i'' \<notin> set ''-0123456789''"
    "CHR ''u'' \<notin> set ''-0123456789''" by simp_all
  with str_int_chars[of i]
  have n: "CHR ''s'' \<notin> set (str_int i)" "CHR ''i'' \<notin> set (str_int i)" "CHR ''u'' \<notin> set (str_int i)"
    by blast+
  have "CHR ''s'' \<in> set ''s16''" "CHR ''i'' \<in> set ''int16''" "CHR ''u'' \<in> set ''u16''"
    "CHR ''u'' \<in> set ''uint16''" by simp_all
  with n show "str_int i \<noteq> ''s16''" "str_int i \<noteq> ''int16''" "str_int i \<noteq> ''u16''" "str_int i \<noteq> ''uint16''"
    by metis+
qed

lemma normalize_type_number:
  "normalize_type (PyInt n) = (if n = 16 then ''s16'' else [])"
  "normalize_type (PyFloat x) = (if py_int_float x = 16 then ''s16'' else [])"
  by (simp_all add: normalize_type_def str_int_plain str_int_16 str_int_not_word)

lemma normalize_type_text:
  "normalize_type (PyStr h) =
     (if lower (strip h) \<in> {''16'', ''s16'', ''int16''} then ''s16''
      else if lower (strip h) \<in> {''u16'', ''uint16''} then ''u16'' else [])"
  by (simp add: normalize_type_def Let_def)

lemma plain_text:
  "lower (strip ''16'') = ''16''" "lower (strip ''s16'') = ''s16''"
  "lower (strip ''int16'') = ''int16''" "lower (strip ''u16'') = ''u16''"
  "lower (strip ''uint16'') = ''uint16''"
  by (simp_all add: strip_def isspace_def lower_def lower_char_def)

lemma normalize_type_literals:
  "normalize_type (PyStr ''16'') = ''s16''" "normalize_type (PyStr ''s16'') = ''s16''"
  "normalize_type (PyStr ''int16'') = ''s16''" "normalize_type (PyStr ''u16'') = ''u16''"
  "normalize_type (PyStr ''uint16'') = ''u16''" "normalize_type NaN = []"
  by (simp_all add: normalize_type_text plain_text) (simp add: normalize_type_def)

lemma load_point_fields:
  assumes "load_point mapping r = Inr pt"
  shows "mem pt = upper (strip (row_mem r))"
    and "MEM_METHOD (mem pt) = Some (method_pt pt)"
    and "(size_pt pt, fmt pt) =
           (if mem pt = ''D''
            then (if normalize_type (row_type r) = ''s16'' then (1, ''s16'')
                  else if normalize_type (row_type r) = ''u16'' then (1, ''u16'')
                  else (2, ''s32''))
            else (1, ''bit''))"
  using assms
  by (auto simp: load_point_def Let_def split: sum.splits option.splits if_splits)

lemma MEM_METHOD_dom: "MEM_METHOD m = Some x \<Longrightarrow> m \<in> {''M'', ''L'', ''Y'', ''X'', ''D''}"
  by (simp add: MEM_METHOD_def split: if_splits)

section \<open>The parser against the meaning of a numeral\<close>

lemma hex_digit_cases:
  assumes "c \<in> set ''0123456789abcdefABCDEF''"
  shows "digit_of c = Some (digit_value c)" and "digit_value c < 16" and "\<not> isspace c"
    and "c \<noteq> CHR ''_''" and "c \<noteq> CHR ''+''" and "c \<noteq> CHR ''-''"
    and "c \<noteq> CHR ''x''" and "c \<noteq> CHR ''X''"
proof -
  have d: "c = CHR ''0'' \<or> c = CHR ''1'' \<or> c = CHR ''2'' \<or> c = CHR ''3'' \<or> c = CHR ''4''
      \<or> c = CHR ''5'' \<or> c = CHR ''6'' \<or> c = CHR ''7'' \<or> c = CHR ''8'' \<or> c = CHR ''9''
      \<or> c = CHR ''a'' \<or> c = CHR ''b'' \<or> c = CHR ''c'' \<or> c = CHR ''d'' \<or> c = CHR ''e''
      \<or> c = CHR ''f'' \<or> c = CHR ''A'' \<or> c = CHR ''B'' \<or> c = CHR ''C'' \<or> c = CHR ''D''
      \<or> c = CHR ''E'' \<or> c = CHR ''F''"
    using assms by simp
  from d show "digit_of c = Some (digit_value c)"
    by (elim disjE) (simp_all add: digit_of_def digit_value_def)
  from d show "digit_value c < 16" by (elim disjE) (simp_all add: digit_value_def)
  from d show "\<not> isspace c" by (elim disjE) (simp_all add: isspace_def)
  from d show "c \<noteq> CHR ''_''" by (elim disjE) simp_all
  from d show "c \<noteq> CHR ''+''" by (elim disjE) simp_all
  from d show "c \<noteq> CHR ''-''" by (elim disjE) simp_all
  from d show "c \<noteq> CHR ''x''" by (elim disjE) simp_all
  from d show "c \<noteq> CHR ''X''" by (elim disjE) simp_all
qed

lemma dec_digit_cases:
  assumes "c \<in> set ''0123456789''"
  shows "digit_value c < 10" and "c \<in> set ''0123456789abcdefABCDEF''"
    and "c \<notin> set ''ABCDEFabcdef''"
proof -
  have d: "c = CHR ''0'' \<or> c = CHR ''1'' \<or> c = CHR ''2'' \<or> c = CHR ''3'' \<or> c = CHR ''4''
      \<or> c = CHR ''5'' \<or> c = CHR ''6'' \<or> c = CHR ''7'' \<or> c = CHR ''8'' \<or> c = CHR ''9''"
    using assms by simp
  from d show "digit_value c < 10" by (elim disjE) (simp_all add: digit_value_def)
  from d show "c \<in> set ''0123456789abcdefABCDEF''" by (elim disjE) simp_all
  from d show "c \<notin> set ''ABCDEFabcdef''" by (elim disjE) simp_all
qed

lemma digits_value_positional:
  "t \<noteq> [] \<Longrightarrow> \<forall>c\<in>set t. digit_of c = Some (digit_value c) \<and> digit_value c < b \<and> c \<noteq> CHR ''_'' \<Longrightarrow>
   digits_value b acc t = Some (acc * b ^ length t + positional_value b t)"
proof (induction b acc t rule: digits_value.induct)
  case (1 base acc)
  then show ?case by simp
next
  case (2 base acc c)
  then show ?case by simp
next
  case (3 base acc c x xs)
  have c: "digit_of c = Some (digit_value c)" "digit_value c < base" using 3(4) by simp_all
  have x: "x \<noteq> CHR ''_''" using 3(4) by simp
  have rest: "\<forall>c\<in>set (x # xs). digit_of c = Some (digit_value c) \<and> digit_value c < base \<and> c \<noteq> CHR ''_''"
    using 3(4) by simp
  have "digits_value base (acc * base + digit_value c) (x # xs) =
      Some ((acc * base + digit_value c) * base ^ length (x # xs) + positional_value base (x # xs))"
    by (rule 3(2)[OF c(1) _ x _ rest]) (use c in simp_all)
  then show ?case using c x by (simp add: algebra_simps)
qed

lemma of_char_nat_eq: "(of_char c :: nat) = of_char d \<Longrightarrow> c = d"
  by simp

lemma isspace_iff:
  "isspace c \<longleftrightarrow> c \<in> set [CHR 0x09, CHR 0x0A, CHR 0x0B, CHR 0x0C, CHR 0x0D,
                              CHR 0x1C, CHR 0x1D, CHR 0x1E, CHR 0x1F, CHR 0x20]"
proof
  assume "isspace c"
  then have n: "(9 \<le> (of_char c :: nat) \<and> (of_char c :: nat) \<le> 13)
      \<or> (28 \<le> (of_char c :: nat) \<and> (of_char c :: nat) \<le> 32)"
    by (simp add: isspace_def Let_def)
  define n where "n = (of_char c :: nat)"
  have "n = 9 \<or> n = 10 \<or> n = 11 \<or> n = 12 \<or> n = 13 \<or> n = 28 \<or> n = 29 \<or> n = 30
      \<or> n = 31 \<or> n = 32"
    using n unfolding n_def[symmetric] by arith
  then have "c = CHR 0x09 \<or> c = CHR 0x0A \<or> c = CHR 0x0B \<or> c = CHR 0x0C \<or> c = CHR 0x0D
     \<or> c = CHR 0x1C \<or> c = CHR 0x1D \<or> c = CHR 0x1E \<or> c = CHR 0x1F \<or> c = CHR 0x20"
  proof (elim disjE)
    assume "n = 9" then show ?thesis using of_char_nat_eq[of c "CHR 0x09"] by (simp add: n_def)
  next
    assume "n = 10" then show ?thesis using of_char_nat_eq[of c "CHR 0x0A"] by (simp add: n_def)
  next
    assume "n = 11" then show ?thesis using of_char_nat_eq[of c "CHR 0x0B"] by (simp add: n_def)
  next
    assume "n = 12" then show ?thesis using of_char_nat_eq[of c "CHR 0x0C"] by (simp add: n_def)
  next
    assume "n = 13" then show ?thesis using of_char_nat_eq[of c "CHR 0x0D"] by (simp add: n_def)
  next
    assume "n = 28" then show ?thesis using of_char_nat_eq[of c "CHR 0x1C"] by (simp add: n_def)
  next
    assume "n = 29" then show ?thesis using of_char_nat_eq[of c "CHR 0x1D"] by (simp add: n_def)
  next
    assume "n = 30" then show ?thesis using of_char_nat_eq[of c "CHR 0x1E"] by (simp add: n_def)
  next
    assume "n = 31" then show ?thesis using of_char_nat_eq[of c "CHR 0x1F"] by (simp add: n_def)
  next
    assume "n = 32" then show ?thesis using of_char_nat_eq[of c "CHR 0x20"] by (simp add: n_def)
  qed
  then show "c \<in> set [CHR 0x09, CHR 0x0A, CHR 0x0B, CHR 0x0C, CHR 0x0D,
                              CHR 0x1C, CHR 0x1D, CHR 0x1E, CHR 0x1F, CHR 0x20]"
    by simp
next
  assume "c \<in> set [CHR 0x09, CHR 0x0A, CHR 0x0B, CHR 0x0C, CHR 0x0D,
                              CHR 0x1C, CHR 0x1D, CHR 0x1E, CHR 0x1F, CHR 0x20]"
  then have "c = CHR 0x09 \<or> c = CHR 0x0A \<or> c = CHR 0x0B \<or> c = CHR 0x0C \<or> c = CHR 0x0D
     \<or> c = CHR 0x1C \<or> c = CHR 0x1D \<or> c = CHR 0x1E \<or> c = CHR 0x1F \<or> c = CHR 0x20" by simp
  then show "isspace c" by (elim disjE) (simp_all add: isspace_def)
qed

lemma strip_trim:
  assumes a: "list_all isspace a" and b: "list_all isspace b"
    and ne: "core \<noteq> []" and h: "\<not> isspace (hd core)" and l: "\<not> isspace (last core)"
  shows "strip (a @ core @ b) = core"
proof -
  have 1: "dropWhile isspace (a @ core @ b) = core @ b"
  proof -
    have "dropWhile isspace (a @ core @ b) = dropWhile isspace (core @ b)"
      by (rule dropWhile_append2) (use a in \<open>simp add: list_all_iff\<close>)
    also have "\<dots> = core @ b" using ne h by (cases core) simp_all
    finally show ?thesis .
  qed
  have 2: "dropWhile isspace (rev b @ rev core) = rev core"
  proof -
    have "dropWhile isspace (rev b @ rev core) = dropWhile isspace (rev core)"
      by (rule dropWhile_append2) (use b in \<open>simp add: list_all_iff\<close>)
    also have "\<dots> = rev core"
      using ne l by (cases "rev core") (simp_all add: last_rev[symmetric] hd_rev)
    finally show ?thesis .
  qed
  show ?thesis unfolding strip_def 1 by (simp add: 2)
qed

lemma strip_idem:
  "core \<noteq> [] \<Longrightarrow> \<not> isspace (hd core) \<Longrightarrow> \<not> isspace (last core) \<Longrightarrow> strip core = core"
  using strip_trim[of "[]" "[]" core] by simp

lemma skip_sign_cases:
  assumes "sg \<in> {[], ''+'', ''-''}" and "w \<noteq> []" and "hd w \<noteq> CHR ''+''" and "hd w \<noteq> CHR ''-''"
  shows "skip_sign (sg @ w) = (sg = ''-'', w)"
  using assms by (cases w) (auto simp add: skip_sign_def)

lemma skip_hex_prefix_cases:
  assumes p: "p \<in> {[], ''0x'', ''0X''}" and ne: "t \<noteq> []"
    and hex: "set t \<subseteq> set ''0123456789abcdefABCDEF''"
  shows "skip_hex_prefix (p @ t) = t"
proof -
  obtain c cs where t: "t = c # cs" using ne by (cases t) auto
  have c: "c \<in> set ''0123456789abcdefABCDEF''" using hex t by simp
  have cu: "c \<noteq> CHR ''_''" by (rule hex_digit_cases(4)[OF c])
  show ?thesis
  proof (cases "p = []")
    case True
    show ?thesis
    proof (cases cs)
      case Nil
      then show ?thesis using True t by (simp add: skip_hex_prefix_def)
    next
      case (Cons d ds)
      have d: "d \<in> set ''0123456789abcdefABCDEF''" using hex t Cons by simp
      have "d \<noteq> CHR ''x''" "d \<noteq> CHR ''X''"
        by (rule hex_digit_cases(7)[OF d], rule hex_digit_cases(8)[OF d])
      then show ?thesis using True t Cons by (simp add: skip_hex_prefix_def)
    qed
  next
    case False
    then have "p = ''0x'' \<or> p = ''0X''" using p by simp
    then show ?thesis using t cu by (auto simp add: skip_hex_prefix_def)
  qed
qed

lemma numeral_core:
  assumes sg: "sg \<in> {[], ''+'', ''-''}" and p: "p \<in> {[], ''0x'', ''0X''}"
    and ne: "t \<noteq> []" and hex: "set t \<subseteq> set ''0123456789abcdefABCDEF''"
  shows "sg @ p @ t \<noteq> []" and "\<not> isspace (hd (sg @ p @ t))" and "\<not> isspace (last (sg @ p @ t))"
    and "p @ t \<noteq> []" and "hd (p @ t) \<noteq> CHR ''+''" and "hd (p @ t) \<noteq> CHR ''-''"
proof -
  have h: "hd t \<in> set ''0123456789abcdefABCDEF''" using ne hex by (cases t) auto
  have l: "last t \<in> set ''0123456789abcdefABCDEF''" using ne hex last_in_set[of t] by blast
  note hh = hex_digit_cases[OF h]
  have hw: "hd (p @ t) = CHR ''0'' \<or> hd (p @ t) = hd t" using p by auto
  show "sg @ p @ t \<noteq> []" "p @ t \<noteq> []" using ne by simp_all
  show plus: "hd (p @ t) \<noteq> CHR ''+''" using hw hh(5) by auto
  show minus: "hd (p @ t) \<noteq> CHR ''-''" using hw hh(6) by auto
  have sp: "\<not> isspace (hd (p @ t))" using hw hh(3) by (auto simp add: isspace_def)
  have "hd (sg @ p @ t) = CHR ''+'' \<or> hd (sg @ p @ t) = CHR ''-'' \<or> hd (sg @ p @ t) = hd (p @ t)"
    using sg by auto
  then show "\<not> isspace (hd (sg @ p @ t))" using sp by (auto simp add: isspace_def)
  have "last (sg @ p @ t) = last t" using ne by simp
  then show "\<not> isspace (last (sg @ p @ t))" using hex_digit_cases(3)[OF l] by simp
qed

lemma int_text_numeral:
  assumes sg: "sg \<in> {[], ''+'', ''-''}" and p: "p \<in> {[], ''0x'', ''0X''}"
    and base: "base = 16 \<or> p = []"
    and ne: "t \<noteq> []" and hex: "set t \<subseteq> set ''0123456789abcdefABCDEF''"
    and small: "\<forall>c\<in>set t. digit_value c < base"
  shows "int_text base (sg @ p @ t) = Inr ((if sg = ''-'' then - 1 else 1) * int (positional_value base t))"
proof -
  note core = numeral_core[OF sg p ne hex]
  have st: "strip (sg @ p @ t) = sg @ p @ t" by (rule strip_idem[OF core(1,2,3)])
  have ss: "skip_sign (sg @ p @ t) = (sg = ''-'', p @ t)"
    by (rule skip_sign_cases[OF sg core(4,5,6)])
  have body: "(if base = 16 then skip_hex_prefix (p @ t) else p @ t) = t"
    using base skip_hex_prefix_cases[OF p ne hex] skip_hex_prefix_cases[of "[]" t, OF _ ne hex]
    by auto
  have "\<forall>c\<in>set t. digit_of c = Some (digit_value c) \<and> digit_value c < base \<and> c \<noteq> CHR ''_''"
    using hex small hex_digit_cases(1,4) by blast
  then have dv: "digits_value base 0 t = Some (positional_value base t)"
    using digits_value_positional[OF ne, of base 0] by simp
  show ?thesis
    unfolding int_text_def st ss Let_def snd_conv fst_conv body dv option.case by simp
qed

lemma parse_int_trimmed:
  assumes a: "list_all isspace a" and b: "list_all isspace b"
    and ne: "core \<noteq> []" and h: "\<not> isspace (hd core)" and l: "\<not> isspace (last core)"
  shows "parse_int (PyStr (a @ core @ b)) =
     (if list_ex (\<lambda>c. c \<in> set ''ABCDEFabcdef'') core then int_text 16 core else int_text 10 core)"
  by (simp only: parse_int_def Let_def has_hex_letter_iff cell.case strip_trim[OF a b ne h l])

lemma parse_int_decimal:
  assumes a: "list_all isspace a" and b: "list_all isspace b"
    and sg: "sg \<in> {[], ''+'', ''-''}"
    and ne: "t \<noteq> []" and dec: "set t \<subseteq> set ''0123456789''"
  shows "parse_int (PyStr (a @ sg @ t @ b)) =
     Inr ((if sg = ''-'' then - 1 else 1) * int (positional_value 10 t))"
proof -
  have hex: "set t \<subseteq> set ''0123456789abcdefABCDEF''" using dec dec_digit_cases(2) by blast
  have small: "\<forall>c\<in>set t. digit_value c < 10" using dec dec_digit_cases(1) by blast
  have p: "[] \<in> {[], ''0x'', ''0X''}" by simp
  note core = numeral_core[OF sg p ne hex]
  have "\<forall>c\<in>set sg. c \<notin> set ''ABCDEFabcdef''" using sg by auto
  moreover have "\<forall>c\<in>set t. c \<notin> set ''ABCDEFabcdef''" using dec dec_digit_cases(3) by blast
  ultimately have nohex: "\<not> list_ex (\<lambda>c. c \<in> set ''ABCDEFabcdef'') (sg @ t)"
    unfolding list_ex_iff by auto
  have "parse_int (PyStr (a @ (sg @ t) @ b)) = int_text 10 (sg @ t)"
    using parse_int_trimmed[OF a b, of "sg @ t"] core(1,2,3) nohex by simp
  moreover have "int_text 10 (sg @ [] @ t) =
      Inr ((if sg = ''-'' then - 1 else 1) * int (positional_value 10 t))"
    by (rule int_text_numeral[OF sg p _ ne hex small]) simp
  ultimately show ?thesis by simp
qed

lemma parse_int_hexadecimal:
  assumes a: "list_all isspace a" and b: "list_all isspace b"
    and sg: "sg \<in> {[], ''+'', ''-''}" and p: "p \<in> {[], ''0x'', ''0X''}"
    and ne: "t \<noteq> []" and hex: "set t \<subseteq> set ''0123456789abcdefABCDEF''"
    and letter: "\<exists>c\<in>set t. c \<in> set ''ABCDEFabcdef''"
  shows "parse_int (PyStr (a @ sg @ p @ t @ b)) =
     Inr ((if sg = ''-'' then - 1 else 1) * int (positional_value 16 t))"
proof -
  have small: "\<forall>c\<in>set t. digit_value c < 16" using hex hex_digit_cases(2) by blast
  note core = numeral_core[OF sg p ne hex]
  have has: "list_ex (\<lambda>c. c \<in> set ''ABCDEFabcdef'') (sg @ p @ t)"
    using letter unfolding list_ex_iff by auto
  have "parse_int (PyStr (a @ (sg @ p @ t) @ b)) = int_text 16 (sg @ p @ t)"
    using parse_int_trimmed[OF a b core(1,2,3)] has by simp
  moreover have "int_text 16 (sg @ p @ t) =
      Inr ((if sg = ''-'' then - 1 else 1) * int (positional_value 16 t))"
    by (rule int_text_numeral[OF sg p _ ne hex small]) simp
  ultimately show ?thesis by simp
qed

lemma positional_value_snoc:
  "positional_value b (xs @ [c]) = positional_value b xs * b + digit_value c"
  by (induction xs) (simp_all add: algebra_simps)

lemma digit_value_digit_char: "d < 10 \<Longrightarrow> digit_value (''0123456789'' ! d) = d"
proof -
  assume "d < 10"
  then have "d = 0 \<or> d = 1 \<or> d = 2 \<or> d = 3 \<or> d = 4 \<or> d = 5 \<or> d = 6 \<or> d = 7 \<or> d = 8 \<or> d = 9"
    by arith
  then show ?thesis by (elim disjE) (simp_all add: digit_value_def)
qed

lemma positional_value_str_nat: "positional_value 10 (str_nat n) = n"
proof (induction n rule: str_nat.induct)
  case (1 n)
  show ?case
  proof (cases "n < 10")
    case True
    then show ?thesis by (subst str_nat.simps) (simp add: digit_value_digit_char)
  next
    case False
    have "positional_value 10 (str_nat (n div 10)) = n div 10" using 1 False by simp
    then show ?thesis using False
      by (subst str_nat.simps) (simp add: positional_value_snoc digit_value_digit_char)
  qed
qed

lemma parse_int_str_int: "parse_int (PyStr (str_int i)) = Inr i"
proof (cases "i < 0")
  case True
  have "parse_int (PyStr ([] @ ''-'' @ str_nat (nat (- i)) @ [])) =
      Inr ((if ''-'' = ''-'' then - 1 else 1) * int (positional_value 10 (str_nat (nat (- i)))))"
    by (rule parse_int_decimal[OF _ _ _ str_nat_ne str_nat_chars]) simp_all
  then show ?thesis using True by (simp add: str_int_def positional_value_str_nat)
next
  case False
  have "parse_int (PyStr ([] @ [] @ str_nat (nat i) @ [])) =
      Inr ((if [] = ''-'' then - 1 else 1) * int (positional_value 10 (str_nat (nat i))))"
    by (rule parse_int_decimal[OF _ _ _ str_nat_ne str_nat_chars]) simp_all
  then show ?thesis using False by (simp add: str_int_def positional_value_str_nat)
qed

lemma parse_int_text:
  "parse_int (PyStr t) = (if list_ex (\<lambda>c. c \<in> set ''ABCDEFabcdef'') (strip t)
      then int_text 16 (strip t) else int_text 10 (strip t))"
  by (simp only: parse_int_def Let_def has_hex_letter_iff cell.case)

lemmas text_eval = strip_def isspace_def int_text_def skip_sign_def skip_hex_prefix_def digit_of_def

lemma digit_of_char:
  assumes "digit_of c = Some d" and "d < 16"
  shows "c \<in> set ''0123456789abcdefABCDEF''" and "d < 10 \<Longrightarrow> c \<in> set ''0123456789''"
proof -
  define n where "n = (of_char c :: nat)"
  have r: "(48 \<le> n \<and> n \<le> 57 \<and> d = n - 48) \<or> (97 \<le> n \<and> n \<le> 122 \<and> d = n - 87)
      \<or> (65 \<le> n \<and> n \<le> 90 \<and> d = n - 55)"
    using assms(1) unfolding digit_of_def Let_def n_def[symmetric]
    by (auto split: if_splits)
  have dec: "c \<in> set ''0123456789''" if "48 \<le> n" "n \<le> 57"
  proof -
    have "n = 48 \<or> n = 49 \<or> n = 50 \<or> n = 51 \<or> n = 52 \<or> n = 53 \<or> n = 54 \<or> n = 55 \<or> n = 56 \<or> n = 57" using that by arith
    then have "c = CHR ''0'' \<or> c = CHR ''1'' \<or> c = CHR ''2'' \<or> c = CHR ''3'' \<or> c = CHR ''4'' \<or> c = CHR ''5'' \<or> c = CHR ''6'' \<or> c = CHR ''7'' \<or> c = CHR ''8'' \<or> c = CHR ''9''"
    proof (elim disjE)
      assume "n = 48" then show ?thesis using of_char_nat_eq[of c "CHR ''0''"] by (simp add: n_def)
    next
      assume "n = 49" then show ?thesis using of_char_nat_eq[of c "CHR ''1''"] by (simp add: n_def)
    next
      assume "n = 50" then show ?thesis using of_char_nat_eq[of c "CHR ''2''"] by (simp add: n_def)
    next
      assume "n = 51" then show ?thesis using of_char_nat_eq[of c "CHR ''3''"] by (simp add: n_def)
    next
      assume "n = 52" then show ?thesis using of_char_nat_eq[of c "CHR ''4''"] by (simp add: n_def)
    next
      assume "n = 53" then show ?thesis using of_char_nat_eq[of c "CHR ''5''"] by (simp add: n_def)
    next
      assume "n = 54" then show ?thesis using of_char_nat_eq[of c "CHR ''6''"] by (simp add: n_def)
    next
      assume "n = 55" then show ?thesis using of_char_nat_eq[of c "CHR ''7''"] by (simp add: n_def)
    next
      assume "n = 56" then show ?thesis using of_char_nat_eq[of c "CHR ''8''"] by (simp add: n_def)
    next
      assume "n = 57" then show ?thesis using of_char_nat_eq[of c "CHR ''9''"] by (simp add: n_def)
    qed
    then show ?thesis by (elim disjE) simp_all
  qed
  have low: "c \<in> set ''abcdef''" if "97 \<le> n" "n \<le> 102"
  proof -
    have "n = 97 \<or> n = 98 \<or> n = 99 \<or> n = 100 \<or> n = 101 \<or> n = 102" using that by arith
    then have "c = CHR ''a'' \<or> c = CHR ''b'' \<or> c = CHR ''c'' \<or> c = CHR ''d'' \<or> c = CHR ''e'' \<or> c = CHR ''f''"
    proof (elim disjE)
      assume "n = 97" then show ?thesis using of_char_nat_eq[of c "CHR ''a''"] by (simp add: n_def)
    next
      assume "n = 98" then show ?thesis using of_char_nat_eq[of c "CHR ''b''"] by (simp add: n_def)
    next
      assume "n = 99" then show ?thesis using of_char_nat_eq[of c "CHR ''c''"] by (simp add: n_def)
    next
      assume "n = 100" then show ?thesis using of_char_nat_eq[of c "CHR ''d''"] by (simp add: n_def)
    next
      assume "n = 101" then show ?thesis using of_char_nat_eq[of c "CHR ''e''"] by (simp add: n_def)
    next
      assume "n = 102" then show ?thesis using of_char_nat_eq[of c "CHR ''f''"] by (simp add: n_def)
    qed
    then show ?thesis by (elim disjE) simp_all
  qed
  have up: "c \<in> set ''ABCDEF''" if "65 \<le> n" "n \<le> 70"
  proof -
    have "n = 65 \<or> n = 66 \<or> n = 67 \<or> n = 68 \<or> n = 69 \<or> n = 70" using that by arith
    then have "c = CHR ''A'' \<or> c = CHR ''B'' \<or> c = CHR ''C'' \<or> c = CHR ''D'' \<or> c = CHR ''E'' \<or> c = CHR ''F''"
    proof (elim disjE)
      assume "n = 65" then show ?thesis using of_char_nat_eq[of c "CHR ''A''"] by (simp add: n_def)
    next
      assume "n = 66" then show ?thesis using of_char_nat_eq[of c "CHR ''B''"] by (simp add: n_def)
    next
      assume "n = 67" then show ?thesis using of_char_nat_eq[of c "CHR ''C''"] by (simp add: n_def)
    next
      assume "n = 68" then show ?thesis using of_char_nat_eq[of c "CHR ''D''"] by (simp add: n_def)
    next
      assume "n = 69" then show ?thesis using of_char_nat_eq[of c "CHR ''E''"] by (simp add: n_def)
    next
      assume "n = 70" then show ?thesis using of_char_nat_eq[of c "CHR ''F''"] by (simp add: n_def)
    qed
    then show ?thesis by (elim disjE) simp_all
  qed
  have s: "set ''0123456789abcdefABCDEF'' = set ''0123456789'' \<union> set ''abcdef'' \<union> set ''ABCDEF''"
    by (simp only: set_append[symmetric] append.simps)
  from r show "c \<in> set ''0123456789abcdefABCDEF''"
  proof (elim disjE)
    assume "48 \<le> n \<and> n \<le> 57 \<and> d = n - 48"
    then have "c \<in> set ''0123456789''" using dec by blast
    then show ?thesis unfolding s by blast
  next
    assume a: "97 \<le> n \<and> n \<le> 122 \<and> d = n - 87"
    then have "n \<le> 102" using assms(2) by arith
    then have "c \<in> set ''abcdef''" using low a by blast
    then show ?thesis unfolding s by blast
  next
    assume a: "65 \<le> n \<and> n \<le> 90 \<and> d = n - 55"
    then have "n \<le> 70" using assms(2) by arith
    then have "c \<in> set ''ABCDEF''" using up a by blast
    then show ?thesis unfolding s by blast
  qed
  assume "d < 10"
  then have "48 \<le> n \<and> n \<le> 57" using r by arith
  then show "c \<in> set ''0123456789''" using dec by blast
qed

lemma digits_value_chars:
  "digits_value base acc t = Some n \<Longrightarrow>
   \<forall>c\<in>set t. c = CHR ''_'' \<or> (\<exists>d. digit_of c = Some d \<and> d < base)"
proof (induction base acc t arbitrary: n rule: digits_value.induct)
  case (1 base acc)
  then show ?case by simp
next
  case (2 base acc c)
  then show ?case by (auto split: option.splits if_splits)
next
  case (3 base acc c x xs)
  from 3(3) obtain d where d: "digit_of c = Some d" "d < base"
    by (auto split: option.splits if_splits)
  show ?case
  proof (cases "x = CHR ''_''")
    case True
    then have "digits_value base (acc * base + d) xs = Some n" using 3(3) d by simp
    from 3(1)[OF d(1) _ True this] d have "\<forall>c\<in>set xs. c = CHR ''_'' \<or> (\<exists>d. digit_of c = Some d \<and> d < base)"
      by simp
    then show ?thesis using d True by auto
  next
    case False
    then have "digits_value base (acc * base + d) (x # xs) = Some n" using 3(3) d by simp
    from 3(2)[OF d(1) _ False this] d
    have "\<forall>c\<in>set (x # xs). c = CHR ''_'' \<or> (\<exists>d. digit_of c = Some d \<and> d < base)"
      by simp
    then show ?thesis using d by auto
  qed
qed

lemma skip_sign_set: "set s \<subseteq> set ''+-'' \<union> set (snd (skip_sign s))"
  by (cases s) (auto simp add: skip_sign_def)

lemma skip_hex_prefix_set: "set s \<subseteq> set ''0xX_'' \<union> set (skip_hex_prefix s)"
proof (cases s)
  case Nil
  then show ?thesis by (simp add: skip_hex_prefix_def)
next
  case (Cons a r)
  note s = Cons
  show ?thesis
  proof (cases r)
    case Nil
    then show ?thesis using s by (simp add: skip_hex_prefix_def)
  next
    case (Cons b r')
    then show ?thesis using s by (cases r') (auto simp add: skip_hex_prefix_def)
  qed
qed

lemma strip_decompose:
  "\<exists>a b. s = a @ strip s @ b \<and> list_all isspace a \<and> list_all isspace b
     \<and> (strip s = [] \<or> (\<not> isspace (hd (strip s)) \<and> \<not> isspace (last (strip s))))"
proof -
  define a where "a = takeWhile isspace s"
  define u where "u = dropWhile isspace s"
  define w where "w = takeWhile isspace (rev u)"
  define v where "v = dropWhile isspace (rev u)"
  have s: "s = a @ u" unfolding a_def u_def by simp
  have ru: "rev u = w @ v" unfolding w_def v_def by simp
  then have "rev (rev u) = rev (w @ v)" by (rule arg_cong)
  then have u: "u = rev v @ rev w" by simp
  have st: "strip s = rev v" unfolding strip_def v_def u_def by simp
  have sa: "list_all isspace a" unfolding a_def list_all_iff using set_takeWhileD by fast
  have sw: "list_all isspace (rev w)" unfolding w_def list_all_iff set_rev
    using set_takeWhileD by fast
  have ends: "\<not> isspace (hd (rev v)) \<and> \<not> isspace (last (rev v))" if ne: "rev v \<noteq> []"
  proof -
    have vne: "v \<noteq> []" using ne by simp
    then have une: "u \<noteq> []" using u by simp
    have "\<not> isspace (hd v)" using vne unfolding v_def by (rule hd_dropWhile)
    then have l: "\<not> isspace (last (rev v))" using vne by (simp add: last_rev)
    have "\<not> isspace (hd u)" using une unfolding u_def by (rule hd_dropWhile)
    moreover have "hd u = hd (rev v)" using u ne by simp
    ultimately show ?thesis using l by simp
  qed
  have "s = a @ strip s @ rev w" using s u st by simp
  then show ?thesis using sa sw ends st by metis
qed

lemma strip_blank: "list_all isspace a \<Longrightarrow> strip a = []"
proof -
  assume "list_all isspace a"
  then have d: "dropWhile isspace a = []" by (simp add: dropWhile_eq_Nil_conv list_all_iff)
  show ?thesis unfolding strip_def d by simp
qed

lemma strip_strip: "strip (strip s) = strip s"
proof (cases "strip s = []")
  case True
  have "strip [] = []" by (simp add: strip_def)
  with True show ?thesis by simp
next
  case False
  then show ?thesis using strip_decompose[of s] strip_idem[of "strip s"] by blast
qed

lemma int_text_fail:
  assumes c: "c \<in> set (strip s)" and sign: "c \<notin> set ''+-''"
    and pre: "base = 16 \<longrightarrow> c \<notin> set ''0xX_''" and us: "c \<noteq> CHR ''_''"
    and dig: "\<forall>d. digit_of c = Some d \<longrightarrow> \<not> d < base"
  shows "int_text base s = Inl ValueError"
proof -
  define body where "body = (if base = 16 then skip_hex_prefix (snd (skip_sign (strip s)))
     else snd (skip_sign (strip s)))"
  have "c \<in> set (snd (skip_sign (strip s)))" using c sign skip_sign_set[of "strip s"] by blast
  then have "c \<in> set body"
    unfolding body_def using pre skip_hex_prefix_set[of "snd (skip_sign (strip s))"] by auto
  then have "digits_value base 0 body = None"
    using digits_value_chars[of base 0 body] us dig by (cases "digits_value base 0 body") blast+
  then show ?thesis unfolding int_text_def Let_def body_def[symmetric] by simp
qed

lemma parse_int_rejects:
  assumes "c \<in> set (strip s)" and "c \<notin> set ''+-_xX0123456789abcdefABCDEF''"
  shows "parse_int (PyStr s) = Inl ValueError"
proof -
  have n: "c \<notin> set ''+-''" "c \<notin> set ''0xX_''" "c \<noteq> CHR ''_''"
    "c \<notin> set ''0123456789abcdefABCDEF''"
    using assms(2) by auto
  have c: "c \<in> set (strip (strip s))" using assms(1) by (simp only: strip_strip)
  have d16: "\<forall>d. digit_of c = Some d \<longrightarrow> \<not> d < 16" using digit_of_char(1)[of c] n(4) by blast
  then have d10: "\<forall>d. digit_of c = Some d \<longrightarrow> \<not> d < 10" by auto
  have "int_text 16 (strip s) = Inl ValueError"
    by (rule int_text_fail[OF c n(1) _ n(3) d16]) (use n(2) in simp)
  moreover have "int_text 10 (strip s) = Inl ValueError"
    by (rule int_text_fail[OF c n(1) _ n(3) d10]) simp
  ultimately show ?thesis unfolding parse_int_text by simp
qed

lemma parse_int_rejects_decimal:
  assumes nohex: "\<not> list_ex (\<lambda>c. c \<in> set ''ABCDEFabcdef'') (strip s)"
    and "c \<in> set (strip s)" and "c \<notin> set ''+-_0123456789''"
  shows "parse_int (PyStr s) = Inl ValueError"
proof -
  have n: "c \<notin> set ''+-''" "c \<noteq> CHR ''_''" "c \<notin> set ''0123456789''"
    using assms(3) by auto
  have c: "c \<in> set (strip (strip s))" using assms(2) by (simp only: strip_strip)
  have d10: "\<forall>d. digit_of c = Some d \<longrightarrow> \<not> d < 10"
    using digit_of_char(2)[of c] n(3) by fastforce
  have "int_text 10 (strip s) = Inl ValueError"
    by (rule int_text_fail[OF c n(1) _ n(2) d10]) simp
  then show ?thesis unfolding parse_int_text using nohex by simp
qed

lemma parse_int_blank: "list_all isspace a \<Longrightarrow> parse_int (PyStr a) = Inl ValueError"
  unfolding parse_int_text
  by (simp add: strip_blank) (simp add: int_text_def strip_def skip_sign_def skip_hex_prefix_def)

section \<open>Batching: the worked example\<close>

text \<open>
  C8. Three points of one method at offsets 10, 11 and 13, each of size 1, whatever their
  labels, formats and PLC addresses, are batched into exactly two batches: start 10 with
  count 2, then start 13 with count 1.
\<close>

theorem make_batches_gap_example:
  "map (\<lambda>b. (start b, count_b b))
     (make_batches
        [\<lparr>label = l1, method_pt = m, offset = 10, size_pt = 1, fmt = f1, mem = c1, plc_addr = a1\<rparr>,
         \<lparr>label = l2, method_pt = m, offset = 11, size_pt = 1, fmt = f2, mem = c2, plc_addr = a2\<rparr>,
         \<lparr>label = l3, method_pt = m, offset = 13, size_pt = 1, fmt = f3, mem = c3, plc_addr = a3\<rparr>])
   = [(10, 2), (13, 1)]"
  by (simp add: make_batches_def grouped_def)

section \<open>Batching: partition, coverage and order\<close>

text \<open>
  C1. Let \<open>pts\<close> be a point list whose footprints do not overlap within a method, every
  point having a positive size (the sizes of a point are 1 and 2). Then every point of
  \<open>pts\<close> is a member of exactly one batch of \<open>make_batches pts\<close>; every member of a batch
  is a point of \<open>pts\<close> with the batch's method whose footprint
  \<open>[offset, offset + size)\<close> lies inside the batch's range \<open>[start, start + count)\<close>; for
  every point exactly one batch of its method has a range that holds its footprint; and
  the batches of each method, in the order of the batch list, have ascending starts and
  each ends at or before the start of the next ones, so that they are pairwise
  non-overlapping.
\<close>

theorem make_batches_partition:
  assumes "non_overlapping pts" and "list_all (\<lambda>p. 0 < size_pt p) pts"
  shows "(\<forall>p\<in>set pts. \<exists>!b. b \<in> set (make_batches pts) \<and> p \<in> set (points b))
       \<and> (\<forall>b\<in>set (make_batches pts). \<forall>p\<in>set (points b).
            p \<in> set pts \<and> method_b b = method_pt p
          \<and> start b \<le> offset p \<and> offset p + size_pt p \<le> start b + count_b b)
       \<and> (\<forall>p\<in>set pts. \<exists>!b. b \<in> set (make_batches pts) \<and> method_b b = method_pt p
          \<and> start b \<le> offset p \<and> offset p + size_pt p \<le> start b + count_b b)
       \<and> (\<forall>m. sorted_wrt (\<lambda>a b. start a < start b \<and> start a + count_b a \<le> start b)
            (filter (\<lambda>b. method_b b = m) (make_batches pts)))"
proof -
  have pos: "0 < size_pt p" if "p \<in> set pts" for p
    using assms(2) that by (simp add: list_all_iff)
  have within: "method_b b = method_pt p \<and> start b \<le> offset p \<and> offset p + size_pt p \<le> start b + count_b b"
    if "b \<in> set (make_batches pts)" "p \<in> set (points b)" for b p
    using make_batches_members[OF that] make_batches_within[OF assms(2) that] by simp
  have uniq: "b1 = b2"
    if "p \<in> set pts" "b1 \<in> set (make_batches pts)" "b2 \<in> set (make_batches pts)"
      "method_b b1 = method_pt p" "start b1 \<le> offset p" "offset p + size_pt p \<le> start b1 + count_b b1"
      "method_b b2 = method_pt p" "start b2 \<le> offset p" "offset p + size_pt p \<le> start b2 + count_b b2"
    for p b1 b2
    by (rule make_batches_range_unique[OF assms that(2,3), of "offset p"])
       (use that pos[OF that(1)] in auto)
  have member: "\<exists>!b. b \<in> set (make_batches pts) \<and> p \<in> set (points b)" if p: "p \<in> set pts" for p
  proof -
    from make_batches_covers[OF p] obtain b where
      b: "b \<in> set (make_batches pts)" "p \<in> set (points b)" by blast
    show ?thesis
    proof (rule ex1I[of _ b])
      show "b \<in> set (make_batches pts) \<and> p \<in> set (points b)" using b by simp
      fix b' assume b': "b' \<in> set (make_batches pts) \<and> p \<in> set (points b')"
      show "b' = b"
        by (rule uniq[OF p]) (use b b' within in auto)
    qed
  qed
  have range: "\<exists>!b. b \<in> set (make_batches pts) \<and> method_b b = method_pt p
          \<and> start b \<le> offset p \<and> offset p + size_pt p \<le> start b + count_b b"
    if p: "p \<in> set pts" for p
  proof -
    from make_batches_covers[OF p] obtain b where
      b: "b \<in> set (make_batches pts)" "p \<in> set (points b)" by blast
    show ?thesis
    proof (rule ex1I[of _ b])
      show "b \<in> set (make_batches pts) \<and> method_b b = method_pt p
          \<and> start b \<le> offset p \<and> offset p + size_pt p \<le> start b + count_b b"
        using b within by simp
      fix b' assume "b' \<in> set (make_batches pts) \<and> method_b b' = method_pt p
          \<and> start b' \<le> offset p \<and> offset p + size_pt p \<le> start b' + count_b b'"
      then show "b' = b"
        using uniq[OF p, of b' b] b within[OF b] by blast
    qed
  qed
  have cover: "p \<in> set pts \<and> method_b b = method_pt p
          \<and> start b \<le> offset p \<and> offset p + size_pt p \<le> start b + count_b b"
    if "b \<in> set (make_batches pts)" "p \<in> set (points b)" for b p
    using make_batches_members[OF that] within[OF that] by simp
  have order: "sorted_wrt (\<lambda>a b. start a < start b \<and> start a + count_b a \<le> start b)
            (filter (\<lambda>b. method_b b = m) (make_batches pts))" for m
  proof (rule sorted_wrt_mono_rel[OF _ make_batches_sorted[OF assms, of m]])
    fix a b assume "a \<in> set (filter (\<lambda>b. method_b b = m) (make_batches pts))"
      and "start a + count_b a \<le> start b"
    then show "start a < start b \<and> start a + count_b a \<le> start b"
      using make_batches_count_pos[OF assms(2), of a] by auto
  qed
  show ?thesis using member range cover order by blast
qed

theorem make_batches_partition_witness:
  "non_overlapping demo_points \<and> list_all (\<lambda>p. 0 < size_pt p) demo_points
   \<and> list_all (\<lambda>p. \<exists>!b. b \<in> set (make_batches demo_points) \<and> p \<in> set (points b)) demo_points
   \<and> map (\<lambda>b. (method_b b, start b, count_b b, map label (points b))) (make_batches demo_points)
       = [(''read_holding_registers'', 10, 3, [''D10'', ''D11'']),
          (''read_holding_registers'', 20, 1, [''D20'']),
          (''read_coils'', 11, 1, [''M11''])]"
proof -
  have a: "non_overlapping demo_points" by (simp add: demo_points_def pt_disjoint_def)
  have b: "list_all (\<lambda>p. 0 < size_pt p) demo_points" by (simp add: demo_points_def)
  have c: "map (\<lambda>b. (method_b b, start b, count_b b, map label (points b))) (make_batches demo_points)
       = [(''read_holding_registers'', 10, 3, [''D10'', ''D11'']),
          (''read_holding_registers'', 20, 1, [''D20'']),
          (''read_coils'', 11, 1, [''M11''])]"
    by (simp add: demo_points_def make_batches_def grouped_def)
  from make_batches_partition[OF a b]
  have "\<forall>p\<in>set demo_points. \<exists>!b. b \<in> set (make_batches demo_points) \<and> p \<in> set (points b)"
    by blast
  then have d: "list_all (\<lambda>p. \<exists>!b. b \<in> set (make_batches demo_points) \<and> p \<in> set (points b)) demo_points"
    by (simp only: list_all_iff)
  show ?thesis using a b c d by blast
qed

section \<open>Decoding signed 16-bit and 32-bit values\<close>

text \<open>
  C2. Let \<open>pt\<close> be a register point (its method is not a bit method) that lies \<open>i\<close> places
  after the start of the register data. If \<open>pt\<close> is an \<^verbatim>\<open>s16\<close> point of size 1 and the word
  \<open>v\<close> at place \<open>i\<close> is a 16-bit pattern, \<open>decode_value\<close> returns \<open>v\<close> when \<open>v < 32768\<close> and
  \<open>v - 65536\<close> otherwise. If \<open>pt\<close> has size 2, \<open>decode_value\<close> combines the word at place
  \<open>i\<close> (low) with the word at place \<open>i + 1\<close> (high) as \<open>low OR (high << 16)\<close> and returns
  the combination when its bit 31 is clear and the combination minus 4294967296 otherwise.
  The words \<open>(0xFFFF, 0xFFFF)\<close> decode to \<open>-1\<close>.
\<close>

theorem decode_value_int16_int32:
  assumes "\<not> bit_method (method_pt pt)" and "offset pt = st + int i"
  shows "(size_pt pt = 1 \<and> fmt pt = ''s16'' \<and> i < length regs \<and> 0 \<le> regs ! i \<and> regs ! i \<le> 65535 \<longrightarrow>
            decode_value pt (RegsData st regs)
              = Inr (if regs ! i < 32768 then regs ! i else regs ! i - 65536))
       \<and> (size_pt pt \<noteq> 1 \<and> Suc i < length regs \<longrightarrow>
            decode_value pt (RegsData st regs)
              = Inr (let combined = regs ! i OR push_bit 16 (regs ! Suc i)
                     in if bit combined 31 then combined - 4294967296 else combined))
       \<and> (size_pt pt \<noteq> 1 \<and> i = 0 \<longrightarrow>
            decode_value pt (RegsData st [0xFFFF, 0xFFFF]) = Inr (- 1))"
proof (intro conjI impI)
  have idx: "offset pt - st = int i" using assms(2) by simp
  {
    assume h: "size_pt pt = 1 \<and> fmt pt = ''s16'' \<and> i < length regs \<and> 0 \<le> regs ! i \<and> regs ! i \<le> 65535"
    then show "decode_value pt (RegsData st regs)
              = Inr (if regs ! i < 32768 then regs ! i else regs ! i - 65536)"
      using assms(1) by (simp add: decode_value_def idx py_index_nat u16_to_s16_eq)
  }
  {
    assume h: "size_pt pt \<noteq> 1 \<and> Suc i < length regs"
    then have "py_index regs (int i) = Inr (regs ! i)" "py_index regs (int i + 1) = Inr (regs ! Suc i)"
      using py_index_nat[of i regs] py_index_nat[of "Suc i" regs] by (simp_all add: add.commute)
    then show "decode_value pt (RegsData st regs)
              = Inr (let combined = regs ! i OR push_bit 16 (regs ! Suc i)
                     in if bit combined 31 then combined - 4294967296 else combined)"
      using assms(1) h by (simp add: decode_value_def idx u32_to_s32_eq Let_def or.commute)
  }
  {
    assume h: "size_pt pt \<noteq> 1 \<and> i = 0"
    then show "decode_value pt (RegsData st [0xFFFF, 0xFFFF]) = Inr (- 1)"
      using assms(1) idx by (simp add: decode_value_def py_index_def u32_to_s32_def)
  }
qed

theorem decode_value_int16_int32_witness:
  "decode_value \<lparr>label = ''a'', method_pt = ''read_holding_registers'', offset = 4, size_pt = 1,
       fmt = ''s16'', mem = ''D'', plc_addr = 4\<rparr> (RegsData 3 [5, 40000, 7]) = Inr (- 25536)
   \<and> decode_value \<lparr>label = ''b'', method_pt = ''read_holding_registers'', offset = 4, size_pt = 2,
       fmt = ''s32'', mem = ''D'', plc_addr = 4\<rparr> (RegsData 3 [5, 1, 2]) = Inr 131073
   \<and> decode_value \<lparr>label = ''c'', method_pt = ''read_holding_registers'', offset = 3, size_pt = 2,
       fmt = ''s32'', mem = ''D'', plc_addr = 3\<rparr> (RegsData 3 [0xFFFF, 0xFFFF]) = Inr (- 1)"
  using decode_value_int16_int32 [of "\<lparr>label = ''a'', method_pt = ''read_holding_registers'', offset = 4, size_pt = 1,
       fmt = ''s16'', mem = ''D'', plc_addr = 4\<rparr>" 3 1 "[5, 40000, 7]"]
    decode_value_int16_int32 [of "\<lparr>label = ''b'', method_pt = ''read_holding_registers'', offset = 4, size_pt = 2,
       fmt = ''s32'', mem = ''D'', plc_addr = 4\<rparr>" 3 1 "[5, 1, 2]"]
    decode_value_int16_int32 [of "\<lparr>label = ''c'', method_pt = ''read_holding_registers'', offset = 3, size_pt = 2,
       fmt = ''s32'', mem = ''D'', plc_addr = 3\<rparr>" 3 0 "[]"]
  by (simp add: bit_method_def)

section \<open>Resolving a PLC address\<close>

lemma scan_segments_first:
  "non_overlapping_segs segs \<Longrightarrow> seg \<in> set segs \<Longrightarrow> covers seg a \<Longrightarrow>
   scan_segments a segs = Inr (mb_base seg + (a - plc_base seg))"
proof (induction segs)
  case Nil
  then show ?case by simp
next
  case (Cons s ss)
  show ?case
  proof (cases "seg = s")
    case True
    with Cons.prems show ?thesis by simp
  next
    case False
    with Cons.prems have in_ss: "seg \<in> set ss" by simp
    with Cons.prems have "seg_disjoint s seg" by (simp add: list_all_iff)
    with Cons.prems(3) have "\<not> covers s a" by (auto simp: seg_disjoint_def covers_def)
    with Cons in_ss show ?thesis by simp
  qed
qed

text \<open>
  C3. When the segments of a memory letter do not overlap and \<open>seg\<close> is one of them,
  \<open>plc_to_modbus\<close> returns \<open>mb_base seg + (a - plc_base seg)\<close> for every address \<open>a\<close> that
  \<open>seg\<close> covers; a segment of positive count so maps its first address to \<open>mb_base seg\<close>
  and its last address to \<open>mb_base seg + count_seg seg - 1\<close>; and with the single segment
  \<open>{plc_base: 100, mb_base: 0, count: 5}\<close> the address 102 resolves to 2.
\<close>

theorem plc_to_modbus_covered:
  assumes "mapping c = Some segs" and "non_overlapping_segs segs" and "seg \<in> set segs"
  shows "(covers seg a \<longrightarrow> plc_to_modbus c a mapping = Inr (mb_base seg + (a - plc_base seg)))
       \<and> (0 < count_seg seg \<longrightarrow>
            plc_to_modbus c (plc_base seg) mapping = Inr (mb_base seg)
          \<and> plc_to_modbus c (plc_base seg + count_seg seg - 1) mapping
              = Inr (mb_base seg + count_seg seg - 1))
       \<and> plc_to_modbus c 102 [c \<mapsto> [\<lparr>plc_base = 100, mb_base = 0, count_seg = 5\<rparr>]] = Inr 2"
proof -
  have gen: "covers seg x \<Longrightarrow> plc_to_modbus c x mapping = Inr (mb_base seg + (x - plc_base seg))" for x
    using assms by (simp add: plc_to_modbus_def scan_segments_first)
  have "0 < count_seg seg \<Longrightarrow> covers seg (plc_base seg)"
    and "0 < count_seg seg \<Longrightarrow> covers seg (plc_base seg + count_seg seg - 1)"
    by (simp_all add: covers_def)
  then have "0 < count_seg seg \<Longrightarrow>
      plc_to_modbus c (plc_base seg) mapping = Inr (mb_base seg)
    \<and> plc_to_modbus c (plc_base seg + count_seg seg - 1) mapping = Inr (mb_base seg + count_seg seg - 1)"
    using gen[of "plc_base seg"] gen[of "plc_base seg + count_seg seg - 1"] by simp
  moreover have "plc_to_modbus c 102 [c \<mapsto> [\<lparr>plc_base = 100, mb_base = 0, count_seg = 5\<rparr>]] = Inr 2"
    by (simp add: plc_to_modbus_def covers_def)
  ultimately show ?thesis using gen[of a] by blast
qed

theorem plc_to_modbus_covered_witness:
  "plc_to_modbus ''D'' 203
      [''D'' \<mapsto> [\<lparr>plc_base = 0, mb_base = 0, count_seg = 100\<rparr>,
                   \<lparr>plc_base = 200, mb_base = 100, count_seg = 50\<rparr>]] = Inr 103
   \<and> plc_to_modbus ''D'' 200
      [''D'' \<mapsto> [\<lparr>plc_base = 0, mb_base = 0, count_seg = 100\<rparr>,
                   \<lparr>plc_base = 200, mb_base = 100, count_seg = 50\<rparr>]] = Inr 100
   \<and> plc_to_modbus ''D'' 249
      [''D'' \<mapsto> [\<lparr>plc_base = 0, mb_base = 0, count_seg = 100\<rparr>,
                   \<lparr>plc_base = 200, mb_base = 100, count_seg = 50\<rparr>]] = Inr 149"
  using plc_to_modbus_covered [of
      "[''D'' \<mapsto> [\<lparr>plc_base = 0, mb_base = 0, count_seg = 100\<rparr>,
                    \<lparr>plc_base = 200, mb_base = 100, count_seg = 50\<rparr>]]"
      "''D''"
      "[\<lparr>plc_base = 0, mb_base = 0, count_seg = 100\<rparr>, \<lparr>plc_base = 200, mb_base = 100, count_seg = 50\<rparr>]"
      "\<lparr>plc_base = 200, mb_base = 100, count_seg = 50\<rparr>" 203]
  by (simp add: covers_def seg_disjoint_def)

lemma scan_segments_Inl:
  "scan_segments a segs = Inl e \<longleftrightarrow> e = ValueError \<and> \<not> list_ex (\<lambda>seg. covers seg a) segs"
  by (induction segs) auto

lemma scan_segments_Inr:
  "(\<exists>v. scan_segments a segs = Inr v) \<longleftrightarrow> list_ex (\<lambda>seg. covers seg a) segs"
  by (induction segs) auto

text \<open>
  C4. \<open>plc_to_modbus\<close> raises exactly when the memory letter has no segments (it is not a
  key of the mapping, or its list is empty) or none of its segments covers the address;
  it returns a value exactly when some segment covers the address, so a failure returns
  no value. The exception is \<^verbatim>\<open>KeyError\<close> when the letter is not a key and \<^verbatim>\<open>ValueError\<close>
  otherwise; both abort the load, which is what the specification calls
  \<^verbatim>\<open>UnmappedAddress\<close>.
\<close>

theorem plc_to_modbus_fails_iff:
  "((\<exists>e. plc_to_modbus c a mapping = Inl e) \<longleftrightarrow>
      (mapping c = None \<or> (\<exists>segs. mapping c = Some segs \<and> \<not> list_ex (\<lambda>seg. covers seg a) segs)))
   \<and> ((\<exists>v. plc_to_modbus c a mapping = Inr v) \<longleftrightarrow>
      (\<exists>segs. mapping c = Some segs \<and> list_ex (\<lambda>seg. covers seg a) segs))
   \<and> (plc_to_modbus c a mapping = Inl KeyError \<longleftrightarrow> mapping c = None)
   \<and> (plc_to_modbus c a mapping = Inl ValueError \<longleftrightarrow>
      (\<exists>segs. mapping c = Some segs \<and> \<not> list_ex (\<lambda>seg. covers seg a) segs))"
  by (cases "mapping c") (simp_all add: plc_to_modbus_def scan_segments_Inl scan_segments_Inr)

section \<open>A failed batch read in one tick\<close>

text \<open>
  C5, as the code has it. Let the batches be those of a point list \<open>pts\<close> whose footprints
  do not overlap within a method, every point having a positive size. Then a tick against
  any reader returns a row with one value for each point, in the order of the points, and
  raises nothing. For a point that is a member of the batch \<open>b\<close>: if the read of \<open>b\<close>
  is an error, its value is the sentinel \<open>-1\<close>; if the read of \<open>b\<close> succeeds, its value is
  decoded from the data of \<open>b\<close> alone, whatever the reads of the other batches did (the
  sentinel only if the decoder raises), and the decoder does not raise when the response
  has at least \<open>count\<close> items. A loop against any list of readers emits one row for each
  tick, so no read error ends the cycle.
\<close>

theorem tick_isolates_batch_errors:
  assumes "non_overlapping pts" and "list_all (\<lambda>p. 0 < size_pt p) pts"
  shows "\<exists>vals. tick (make_batches pts) pts rd = Inr vals \<and> length vals = length pts
       \<and> (\<forall>i<length pts. \<forall>b\<in>set (make_batches pts). pts ! i \<in> set (points b) \<longrightarrow>
            (rd (method_b b) (start b) (count_b b) = IsError \<longrightarrow> vals ! i = - 1)
          \<and> (\<forall>bits regs. rd (method_b b) (start b) (count_b b) = Response bits regs \<longrightarrow>
                vals ! i = (case decode_value (pts ! i) (read_batch rd b) of
                              Inl e \<Rightarrow> - 1 | Inr v \<Rightarrow> v)
              \<and> ((if bit_method (method_b b) then count_b b \<le> int (length bits) else count_b b \<le> int (length regs))
                   \<longrightarrow> decode_value (pts ! i) (read_batch rd b) = Inr (vals ! i))))
       \<and> length (run_ticks pts rds) = length rds"
proof -
  let ?B = "make_batches pts"
  define g where "g rd' pt = (case point_value ?B (read_batches rd' ?B) pt of Inl e \<Rightarrow> 0 | Inr v \<Rightarrow> v)"
    for rd' pt
  have pv: "point_value ?B (read_batches rd' ?B) pt = Inr (g rd' pt)" if "pt \<in> set pts" for rd' pt
  proof -
    from make_batches_covers[OF that] obtain b where
      b: "b \<in> set ?B" "pt \<in> set (points b)" by blast
    show ?thesis by (simp add: g_def point_value_member[OF assms b])
  qed
  have tk: "tick ?B pts rd' = Inr (map (g rd') pts)" for rd'
    unfolding tick_def by (rule row_values_all) (use pv in blast)
  have run: "length (run_ticks pts rds) = length rds"
    by (induction rds) (simp_all add: tk)
  have vals: "(rd (method_b b) (start b) (count_b b) = IsError \<longrightarrow> map (g rd) pts ! i = - 1)
          \<and> (\<forall>bits regs. rd (method_b b) (start b) (count_b b) = Response bits regs \<longrightarrow>
                map (g rd) pts ! i = (case decode_value (pts ! i) (read_batch rd b) of
                              Inl e \<Rightarrow> - 1 | Inr v \<Rightarrow> v)
              \<and> ((if bit_method (method_b b) then count_b b \<le> int (length bits) else count_b b \<le> int (length regs))
                   \<longrightarrow> decode_value (pts ! i) (read_batch rd b) = Inr (map (g rd) pts ! i)))"
    if i: "i < length pts" and b: "b \<in> set ?B" and mem: "pts ! i \<in> set (points b)" for i b
  proof -
    let ?pt = "pts ! i"
    have gv: "g rd ?pt = (case read_batch rd b of
                  NoData \<Rightarrow> - 1
                | d \<Rightarrow> (case decode_value ?pt (read_batch rd b) of Inl e \<Rightarrow> - 1 | Inr v \<Rightarrow> v))"
      by (simp add: g_def point_value_member[OF assms b mem])
    have pos: "0 < size_pt ?pt" using assms(2) i by (simp add: list_all_iff)
    have rng: "start b \<le> offset ?pt" "offset ?pt + size_pt ?pt \<le> start b + count_b b"
      using make_batches_within[OF assms(2) b mem] by simp_all
    have m: "method_pt ?pt = method_b b" using make_batches_members[OF b mem] by simp
    have err: "rd (method_b b) (start b) (count_b b) = IsError \<Longrightarrow> g rd ?pt = - 1"
      by (simp add: gv read_batch_def)
    have ok: "g rd ?pt = (case decode_value ?pt (read_batch rd b) of Inl e \<Rightarrow> - 1 | Inr v \<Rightarrow> v)"
      if "rd (method_b b) (start b) (count_b b) = Response bits regs" for bits regs
      using that by (simp add: gv read_batch_def)
    have full: "decode_value ?pt (read_batch rd b) = Inr (g rd ?pt)"
      if r: "rd (method_b b) (start b) (count_b b) = Response bits regs"
        and len: "(if bit_method (method_b b) then count_b b \<le> int (length bits) else count_b b \<le> int (length regs))"
      for bits regs
    proof -
      have "\<exists>v. decode_value ?pt (read_batch rd b) = Inr v"
        using decode_value_in_range[OF pos rng, of bits regs] r len m
        by (auto simp: read_batch_def)
      then show ?thesis using ok[OF r] by auto
    qed
    have nth: "map (g rd) pts ! i = g rd ?pt" using i by simp
    show ?thesis unfolding nth using err ok full by blast
  qed
  have len: "length (map (g rd) pts) = length pts" by simp
  from vals have all: "\<forall>i<length pts. \<forall>b\<in>set ?B. pts ! i \<in> set (points b) \<longrightarrow>
            (rd (method_b b) (start b) (count_b b) = IsError \<longrightarrow> map (g rd) pts ! i = - 1)
          \<and> (\<forall>bits regs. rd (method_b b) (start b) (count_b b) = Response bits regs \<longrightarrow>
                map (g rd) pts ! i = (case decode_value (pts ! i) (read_batch rd b) of
                              Inl e \<Rightarrow> - 1 | Inr v \<Rightarrow> v)
              \<and> ((if bit_method (method_b b) then count_b b \<le> int (length bits) else count_b b \<le> int (length regs))
                   \<longrightarrow> decode_value (pts ! i) (read_batch rd b) = Inr (map (g rd) pts ! i)))"
    by blast
  show ?thesis
    by (rule exI[of _ "map (g rd) pts"]) (intro conjI tk len all run)
qed

theorem tick_isolates_batch_errors_witness:
  "non_overlapping demo_points \<and> list_all (\<lambda>p. 0 < size_pt p) demo_points
   \<and> map (\<lambda>b. (method_b b, start b, count_b b)) (make_batches demo_points)
       = [(''read_holding_registers'', 10, 3), (''read_holding_registers'', 20, 1), (''read_coils'', 11, 1)]
   \<and> demo_reader ''read_coils'' 11 1 = IsError
   \<and> tick (make_batches demo_points) demo_points demo_reader = Inr [65535, - 1, 131073, - 25536]
   \<and> length (run_ticks demo_points [demo_reader, demo_reader]) = 2"
proof -
  have a: "non_overlapping demo_points" by (simp add: demo_points_def pt_disjoint_def)
  have b: "list_all (\<lambda>p. 0 < size_pt p) demo_points" by (simp add: demo_points_def)
  have c: "map (\<lambda>b. (method_b b, start b, count_b b)) (make_batches demo_points)
       = [(''read_holding_registers'', 10, 3), (''read_holding_registers'', 20, 1), (''read_coils'', 11, 1)]"
    by (simp add: demo_points_def make_batches_def grouped_def)
  have d: "demo_reader ''read_coils'' 11 1 = IsError" by (simp add: demo_reader_def)
  have mb: "make_batches demo_points =
      [\<lparr>method_b = ''read_holding_registers'', start = 10, count_b = 3, points = [demo_points ! 3, demo_points ! 2]\<rparr>,
       \<lparr>method_b = ''read_holding_registers'', start = 20, count_b = 1, points = [demo_points ! 0]\<rparr>,
       \<lparr>method_b = ''read_coils'', start = 11, count_b = 1, points = [demo_points ! 1]\<rparr>]"
    by (simp add: demo_points_def make_batches_def grouped_def)
  have e: "tick (make_batches demo_points) demo_points demo_reader = Inr [65535, - 1, 131073, - 25536]"
    unfolding mb
    by (simp add: demo_points_def tick_def read_batches_def store_batch_def read_batch_def
        demo_reader_def point_value_def decode_value_def py_index_def bit_method_def
        u16_to_s16_def u32_to_s32_def)
  from tick_isolates_batch_errors[OF a b, of demo_reader "[demo_reader, demo_reader]"]
  have f: "length (run_ticks demo_points [demo_reader, demo_reader]) = 2" by auto
  show ?thesis using a b c d e f by blast
qed

text \<open>
  C5 as stated, without the condition on the footprints, fails: with a 32-bit register at
  offset 0 and a 16-bit register at offset 1 the batches are \<open>(0, 2)\<close> holding \<^verbatim>\<open>D0\<close> and
  \<open>(1, 1)\<close> holding \<^verbatim>\<open>D1\<close>. When the read of the second batch is an error and the read of
  the first returns the words 7 and 9, the row gives \<^verbatim>\<open>D1\<close> the value 9 (read through the
  first batch) and not the sentinel, although \<^verbatim>\<open>D1\<close> is a member of the failed batch.
\<close>

theorem tick_overlap_counterexample:
  "map (\<lambda>b. (start b, count_b b, map label (points b))) (make_batches [overlap_d0, overlap_d1_u16])
       = [(0, 2, [''D0'']), (1, 1, [''D1''])]
   \<and> overlap_reader ''read_holding_registers'' 1 1 = IsError
   \<and> tick (make_batches [overlap_d0, overlap_d1_u16]) [overlap_d0, overlap_d1_u16] overlap_reader
       = Inr [589831, 9]"
proof -
  have mb: "make_batches [overlap_d0, overlap_d1_u16] =
      [\<lparr>method_b = ''read_holding_registers'', start = 0, count_b = 2, points = [overlap_d0]\<rparr>,
       \<lparr>method_b = ''read_holding_registers'', start = 1, count_b = 1, points = [overlap_d1_u16]\<rparr>]"
    by (simp add: overlap_d0_def overlap_d1_u16_def make_batches_def grouped_def)
  have a: "map (\<lambda>b. (start b, count_b b, map label (points b))) (make_batches [overlap_d0, overlap_d1_u16])
       = [(0, 2, [''D0'']), (1, 1, [''D1''])]"
    unfolding mb by (simp add: overlap_d0_def overlap_d1_u16_def)
  have b: "overlap_reader ''read_holding_registers'' 1 1 = IsError" by (simp add: overlap_reader_def)
  have c: "tick (make_batches [overlap_d0, overlap_d1_u16]) [overlap_d0, overlap_d1_u16] overlap_reader
       = Inr [589831, 9]"
    unfolding mb
    by (simp add: overlap_d0_def overlap_d1_u16_def tick_def read_batches_def store_batch_def
        read_batch_def overlap_reader_def point_value_def decode_value_def py_index_def
        bit_method_def u32_to_s32_def)
  show ?thesis using a b c by blast
qed

section \<open>The encoding of a loaded point\<close>

text \<open>
  C6. Let \<open>load_point\<close> succeed on a row and give the point \<open>pt\<close>; \<^verbatim>\<open>s16\<close>, \<^verbatim>\<open>u16\<close>, \<^verbatim>\<open>s32\<close> and
  \<^verbatim>\<open>bit\<close> are the formats of the encodings Int16, UInt16, Int32 and Bit. A point of a bit
  memory (\<^verbatim>\<open>M\<close>, \<^verbatim>\<open>L\<close>, \<^verbatim>\<open>Y\<close>, \<^verbatim>\<open>X\<close>: every memory but \<^verbatim>\<open>D\<close>) has the format \<^verbatim>\<open>bit\<close> and size 1
  whatever its hint. For a point of the word memory \<^verbatim>\<open>D\<close>: the hints \<^verbatim>\<open>"16"\<close>, \<^verbatim>\<open>"s16"\<close>,
  \<^verbatim>\<open>"int16"\<close> give \<^verbatim>\<open>s16\<close> with size 1; the hints \<^verbatim>\<open>"u16"\<close>, \<^verbatim>\<open>"uint16"\<close> give \<^verbatim>\<open>u16\<close> with size
  1; an absent hint gives \<^verbatim>\<open>s32\<close> with size 2. The code recognises a hint after stripping
  and lower-casing it, and reads a numeric hint through its integer part (16 as
  \<^verbatim>\<open>"16"\<close>); every hint it does not recognise gives \<^verbatim>\<open>s32\<close> with size 2.
\<close>

theorem load_point_encoding:
  assumes "load_point mapping r = Inr pt"
  shows "(mem pt \<noteq> ''D'' \<longrightarrow>
            mem pt \<in> {''M'', ''L'', ''Y'', ''X''} \<and> fmt pt = ''bit'' \<and> size_pt pt = 1)
       \<and> (mem pt = ''D'' \<longrightarrow>
            (row_type r \<in> {PyStr ''16'', PyStr ''s16'', PyStr ''int16''} \<longrightarrow>
               fmt pt = ''s16'' \<and> size_pt pt = 1)
          \<and> (row_type r \<in> {PyStr ''u16'', PyStr ''uint16''} \<longrightarrow>
               fmt pt = ''u16'' \<and> size_pt pt = 1)
          \<and> (row_type r = NaN \<longrightarrow> fmt pt = ''s32'' \<and> size_pt pt = 2)
          \<and> (\<forall>h. row_type r = PyStr h \<longrightarrow>
                (lower (strip h) \<in> {''16'', ''s16'', ''int16''} \<longrightarrow>
                   fmt pt = ''s16'' \<and> size_pt pt = 1)
              \<and> (lower (strip h) \<in> {''u16'', ''uint16''} \<longrightarrow>
                   fmt pt = ''u16'' \<and> size_pt pt = 1)
              \<and> (lower (strip h) \<notin> {''16'', ''s16'', ''int16'', ''u16'', ''uint16''} \<longrightarrow>
                   fmt pt = ''s32'' \<and> size_pt pt = 2))
          \<and> (\<forall>n. row_type r = PyInt n \<or> (\<exists>x. row_type r = PyFloat x \<and> py_int_float x = n) \<longrightarrow>
                (n = 16 \<longrightarrow> fmt pt = ''s16'' \<and> size_pt pt = 1)
              \<and> (n \<noteq> 16 \<longrightarrow> fmt pt = ''s32'' \<and> size_pt pt = 2)))"
proof -
  note f = load_point_fields[OF assms]
  have bit: "mem pt \<noteq> ''D'' \<Longrightarrow>
      mem pt \<in> {''M'', ''L'', ''Y'', ''X''} \<and> fmt pt = ''bit'' \<and> size_pt pt = 1"
    using f(3) MEM_METHOD_dom[OF f(2)] by auto
  have by_norm:
    "normalize_type (row_type r) = ''s16'' \<Longrightarrow> fmt pt = ''s16'' \<and> size_pt pt = 1"
    "normalize_type (row_type r) = ''u16'' \<Longrightarrow> fmt pt = ''u16'' \<and> size_pt pt = 1"
    "normalize_type (row_type r) = [] \<Longrightarrow> fmt pt = ''s32'' \<and> size_pt pt = 2"
    if "mem pt = ''D''"
    using f(3) that by auto
  have lit: "mem pt = ''D'' \<Longrightarrow>
      (row_type r \<in> {PyStr ''16'', PyStr ''s16'', PyStr ''int16''} \<longrightarrow> fmt pt = ''s16'' \<and> size_pt pt = 1)
    \<and> (row_type r \<in> {PyStr ''u16'', PyStr ''uint16''} \<longrightarrow> fmt pt = ''u16'' \<and> size_pt pt = 1)
    \<and> (row_type r = NaN \<longrightarrow> fmt pt = ''s32'' \<and> size_pt pt = 2)"
    using by_norm normalize_type_literals by auto
  have txt_hint: "(lower (strip h) \<in> {''16'', ''s16'', ''int16''} \<longrightarrow> fmt pt = ''s16'' \<and> size_pt pt = 1)
      \<and> (lower (strip h) \<in> {''u16'', ''uint16''} \<longrightarrow> fmt pt = ''u16'' \<and> size_pt pt = 1)
      \<and> (lower (strip h) \<notin> {''16'', ''s16'', ''int16'', ''u16'', ''uint16''} \<longrightarrow>
            fmt pt = ''s32'' \<and> size_pt pt = 2)"
    if "mem pt = ''D''" "row_type r = PyStr h" for h
  proof -
    have nt: "normalize_type (row_type r) =
       (if lower (strip h) \<in> {''16'', ''s16'', ''int16''} then ''s16''
        else if lower (strip h) \<in> {''u16'', ''uint16''} then ''u16'' else [])"
      unfolding that(2) by (rule normalize_type_text)
    have a: "lower (strip h) \<in> {''16'', ''s16'', ''int16''} \<Longrightarrow> fmt pt = ''s16'' \<and> size_pt pt = 1"
      using by_norm(1)[OF that(1)] nt by simp
    have b: "lower (strip h) \<in> {''u16'', ''uint16''} \<Longrightarrow> fmt pt = ''u16'' \<and> size_pt pt = 1"
    proof -
      assume u: "lower (strip h) \<in> {''u16'', ''uint16''}"
      have "''u16'' \<notin> {''16'', ''s16'', ''int16''}" "''uint16'' \<notin> {''16'', ''s16'', ''int16''}"
        by simp_all
      with u have "lower (strip h) \<notin> {''16'', ''s16'', ''int16''}" by auto
      with u nt have "normalize_type (row_type r) = ''u16''" by simp
      then show ?thesis by (rule by_norm(2)[OF that(1)])
    qed
    have c: "lower (strip h) \<notin> {''16'', ''s16'', ''int16'', ''u16'', ''uint16''} \<Longrightarrow>
        fmt pt = ''s32'' \<and> size_pt pt = 2"
    proof -
      assume "lower (strip h) \<notin> {''16'', ''s16'', ''int16'', ''u16'', ''uint16''}"
      then have "lower (strip h) \<notin> {''16'', ''s16'', ''int16''}" "lower (strip h) \<notin> {''u16'', ''uint16''}"
        by blast+
      with nt have "normalize_type (row_type r) = []" by simp
      then show ?thesis by (rule by_norm(3)[OF that(1)])
    qed
    from a b c show ?thesis by blast
  qed
  have num_hint: "(n = 16 \<longrightarrow> fmt pt = ''s16'' \<and> size_pt pt = 1)
      \<and> (n \<noteq> 16 \<longrightarrow> fmt pt = ''s32'' \<and> size_pt pt = 2)"
    if "mem pt = ''D''" "row_type r = PyInt n \<or> (\<exists>x. row_type r = PyFloat x \<and> py_int_float x = n)" for n
  proof -
    have "normalize_type (row_type r) = (if n = 16 then ''s16'' else [])"
      using that(2) normalize_type_number by auto
    then show ?thesis using by_norm(1,3)[OF that(1)] by simp
  qed
  show ?thesis using bit lit txt_hint num_hint by blast
qed

theorem load_point_encoding_witness:
  "load_point demo_mapping demo_row_s16 =
     Inr \<lparr>label = ''temp'', method_pt = ''read_holding_registers'', offset = 10, size_pt = 1,
          fmt = ''s16'', mem = ''D'', plc_addr = 10\<rparr>
   \<and> load_point demo_mapping demo_row_coil =
     Inr \<lparr>label = ''run'', method_pt = ''read_coils'', offset = 5, size_pt = 1,
          fmt = ''bit'', mem = ''M'', plc_addr = 5\<rparr>
   \<and> load_point demo_mapping demo_row_blank =
     Inr \<lparr>label = ''count'', method_pt = ''read_holding_registers'', offset = 20, size_pt = 2,
          fmt = ''s32'', mem = ''D'', plc_addr = 20\<rparr>"
proof -
  have m: "upper (strip ''d'') = ''D''" "upper (strip ''M'') = ''M''" "upper (strip ''D'') = ''D''"
    by (simp_all add: strip_def isspace_def upper_def upper_char_def)
  have p: "parse_int (PyStr ''20'') = Inr 20"
  proof -
    have s: "strip ''20'' = ''20''" by (simp add: strip_def isspace_def)
    have "int_text 10 ''20'' = Inr 20"
      by (simp add: strip_def isspace_def int_text_def skip_sign_def digit_of_def)
    then show ?thesis
      by (simp only: parse_int_def Let_def has_hex_letter_iff cell.case s) simp
  qed
  have r: "plc_to_modbus ''D'' 10 demo_mapping = Inr 10" "plc_to_modbus ''M'' 5 demo_mapping = Inr 5"
    "plc_to_modbus ''D'' 20 demo_mapping = Inr 20"
    by (simp_all add: plc_to_modbus_def demo_mapping_def covers_def)
  have mm: "MEM_METHOD ''D'' = Some ''read_holding_registers''" "MEM_METHOD ''M'' = Some ''read_coils''"
    by (simp_all add: MEM_METHOD_def)
  obtain p1 where e1: "load_point demo_mapping demo_row_s16 = Inr p1"
    and v1: "label p1 = ''temp''" "method_pt p1 = ''read_holding_registers''" "offset p1 = 10"
      "mem p1 = ''D''" "plc_addr p1 = 10"
    by (simp add: load_point_def demo_row_s16_def Let_def m r mm parse_int_def)
  obtain p2 where e2: "load_point demo_mapping demo_row_coil = Inr p2"
    and v2: "label p2 = ''run''" "method_pt p2 = ''read_coils''" "offset p2 = 5"
      "mem p2 = ''M''" "plc_addr p2 = 5"
    by (simp add: load_point_def demo_row_coil_def Let_def m r mm parse_int_def)
  obtain p3 where e3: "load_point demo_mapping demo_row_blank = Inr p3"
    and v3: "label p3 = ''count''" "method_pt p3 = ''read_holding_registers''" "offset p3 = 20"
      "mem p3 = ''D''" "plc_addr p3 = 20"
    by (simp add: load_point_def demo_row_blank_def Let_def m r mm p)
  have t1: "row_type demo_row_s16 = PyStr ''s16''" and t2: "row_type demo_row_coil = PyStr ''u16''"
    and t3: "row_type demo_row_blank = NaN"
    by (simp_all add: demo_row_s16_def demo_row_coil_def demo_row_blank_def)
  have f1: "fmt p1 = ''s16'' \<and> size_pt p1 = 1"
    using load_point_encoding[OF e1] v1(4) t1 by simp
  have f2: "fmt p2 = ''bit'' \<and> size_pt p2 = 1"
    using load_point_encoding[OF e2] v2(4) by simp
  have f3: "fmt p3 = ''s32'' \<and> size_pt p3 = 2"
    using load_point_encoding[OF e3] v3(4) t3 by simp
  have "p1 = \<lparr>label = ''temp'', method_pt = ''read_holding_registers'', offset = 10, size_pt = 1,
          fmt = ''s16'', mem = ''D'', plc_addr = 10\<rparr>"
    using v1 f1 by (cases p1) simp
  moreover have "p2 = \<lparr>label = ''run'', method_pt = ''read_coils'', offset = 5, size_pt = 1,
          fmt = ''bit'', mem = ''M'', plc_addr = 5\<rparr>"
    using v2 f2 by (cases p2) simp
  moreover have "p3 = \<lparr>label = ''count'', method_pt = ''read_holding_registers'', offset = 20, size_pt = 2,
          fmt = ''s32'', mem = ''D'', plc_addr = 20\<rparr>"
    using v3 f3 by (cases p3) simp
  ultimately show ?thesis using e1 e2 e3 by simp
qed

section \<open>Batching does not depend on the order of the points\<close>

text \<open>
  C7. Let \<open>pts\<close> be a point list whose footprints do not overlap within a method, every
  point having a positive size, and let \<open>pts'\<close> be a permutation of \<open>pts\<close>. Then
  \<open>make_batches pts'\<close> and \<open>make_batches pts\<close> give the same set of
  \<open>(start, count)\<close> pairs.
\<close>

theorem make_batches_permutation:
  assumes "non_overlapping pts" and "list_all (\<lambda>p. 0 < size_pt p) pts" and "mset pts' = mset pts"
  shows "(\<lambda>b. (start b, count_b b)) ` set (make_batches pts')
       = (\<lambda>b. (start b, count_b b)) ` set (make_batches pts)"
  by (simp only: set_make_batches_perm[OF assms])

theorem make_batches_permutation_witness:
  "non_overlapping demo_points \<and> list_all (\<lambda>p. 0 < size_pt p) demo_points
   \<and> mset demo_points_permuted = mset demo_points
   \<and> map (\<lambda>b. (start b, count_b b)) (make_batches demo_points) = [(10, 3), (20, 1), (11, 1)]
   \<and> map (\<lambda>b. (start b, count_b b)) (make_batches demo_points_permuted) = [(11, 1), (10, 3), (20, 1)]
   \<and> (\<lambda>b. (start b, count_b b)) ` set (make_batches demo_points_permuted)
       = (\<lambda>b. (start b, count_b b)) ` set (make_batches demo_points)"
proof -
  have a: "non_overlapping demo_points" by (simp add: demo_points_def pt_disjoint_def)
  have b: "list_all (\<lambda>p. 0 < size_pt p) demo_points" by (simp add: demo_points_def)
  have c: "mset demo_points_permuted = mset demo_points"
    by (simp add: demo_points_def demo_points_permuted_def)
  have d: "map (\<lambda>b. (start b, count_b b)) (make_batches demo_points) = [(10, 3), (20, 1), (11, 1)]"
    by (simp add: demo_points_def make_batches_def grouped_def)
  have e: "map (\<lambda>b. (start b, count_b b)) (make_batches demo_points_permuted) = [(11, 1), (10, 3), (20, 1)]"
    by (simp add: demo_points_permuted_def make_batches_def grouped_def)
  show ?thesis using a b c d e make_batches_permutation[OF a b c] by blast
qed

section \<open>The batch-start lookup\<close>

text \<open>
  C9, as the code has it. Let \<open>pt\<close> be a point of the list \<open>pts\<close> from which the batches
  were built, every point having a positive size. Then \<open>batch_start\<close> finds a batch of the
  point's method with \<open>start \<le> offset pt < start + count\<close> and returns its start, so it
  never raises \<^verbatim>\<open>RuntimeError\<close>; and when the footprints of \<open>pts\<close> do not overlap within
  a method, the start it returns is the start of the batch that has \<open>pt\<close> as a member.
\<close>

theorem batch_start_found:
  assumes "list_all (\<lambda>p. 0 < size_pt p) pts" and "pt \<in> set pts"
  shows "(\<exists>b\<in>set (make_batches pts).
            method_b b = method_pt pt \<and> start b \<le> offset pt \<and> offset pt < start b + count_b b
          \<and> batch_start (make_batches pts) pt = Inr (start b))
       \<and> batch_start (make_batches pts) pt \<noteq> Inl RuntimeError
       \<and> (non_overlapping pts \<longrightarrow>
            (\<exists>b\<in>set (make_batches pts).
               pt \<in> set (points b) \<and> batch_start (make_batches pts) pt = Inr (start b)))"
proof -
  from make_batches_covers[OF assms(2)] obtain b where
    b: "b \<in> set (make_batches pts)" "pt \<in> set (points b)" by blast
  have pos: "0 < size_pt pt" using assms by (simp add: list_all_iff)
  have mb: "method_b b = method_pt pt \<and> start b \<le> offset pt \<and> offset pt < start b + count_b b"
    using make_batches_members[OF b] make_batches_within[OF assms(1) b] pos by simp
  with b(1) have "\<exists>b\<in>set (make_batches pts).
      method_b b = method_pt pt \<and> start b \<le> offset pt \<and> offset pt < start b + count_b b" by blast
  from batch_start_finds[OF this] obtain b' where
    b': "b' \<in> set (make_batches pts)" "method_b b' = method_pt pt" "start b' \<le> offset pt"
      "offset pt < start b' + count_b b'" "batch_start (make_batches pts) pt = Inr (start b')"
    by blast
  have "b' = b" if "non_overlapping pts"
    by (rule make_batches_range_unique[OF that assms(1) b'(1) b(1), of "offset pt"])
       (use b' mb in auto)
  with b b' show ?thesis by auto
qed

theorem batch_start_found_witness:
  "list_all (\<lambda>p. 0 < size_pt p) demo_points \<and> non_overlapping demo_points
   \<and> batch_start (make_batches demo_points) (demo_points ! 2) = Inr 10
   \<and> list_ex (\<lambda>b. demo_points ! 2 \<in> set (points b)
        \<and> batch_start (make_batches demo_points) (demo_points ! 2) = Inr (start b))
       (make_batches demo_points)"
proof -
  have a: "non_overlapping demo_points" by (simp add: demo_points_def pt_disjoint_def)
  have b: "list_all (\<lambda>p. 0 < size_pt p) demo_points" by (simp add: demo_points_def)
  have c: "demo_points ! 2 \<in> set demo_points" by (simp add: demo_points_def)
  have d: "batch_start (make_batches demo_points) (demo_points ! 2) = Inr 10"
    by (simp add: demo_points_def make_batches_def grouped_def)
  from batch_start_found[OF b c] a
  have "\<exists>b\<in>set (make_batches demo_points). demo_points ! 2 \<in> set (points b)
      \<and> batch_start (make_batches demo_points) (demo_points ! 2) = Inr (start b)" by blast
  then have e: "list_ex (\<lambda>b. demo_points ! 2 \<in> set (points b)
        \<and> batch_start (make_batches demo_points) (demo_points ! 2) = Inr (start b))
       (make_batches demo_points)" by (simp only: list_ex_iff)
  show ?thesis using a b d e by blast
qed

text \<open>
  C9 as stated, without the condition on the footprints, fails: for two 32-bit registers
  at the offsets 0 and 1 the batches are \<open>(0, 2)\<close> holding \<^verbatim>\<open>D0\<close> and \<open>(1, 2)\<close> holding
  \<^verbatim>\<open>D1\<close>; the lookup for \<^verbatim>\<open>D1\<close> returns 0, the start of the batch of \<^verbatim>\<open>D0\<close>, and no batch
  that has \<^verbatim>\<open>D1\<close> as a member starts there.
\<close>

theorem batch_start_overlap_counterexample:
  "list_all (\<lambda>p. 0 < size_pt p) [overlap_d0, overlap_d1]
   \<and> map (\<lambda>b. (start b, count_b b, map label (points b))) (make_batches [overlap_d0, overlap_d1])
       = [(0, 2, [''D0'']), (1, 2, [''D1''])]
   \<and> batch_start (make_batches [overlap_d0, overlap_d1]) overlap_d1 = Inr 0
   \<and> \<not> list_ex (\<lambda>b. overlap_d1 \<in> set (points b)
          \<and> batch_start (make_batches [overlap_d0, overlap_d1]) overlap_d1 = Inr (start b))
        (make_batches [overlap_d0, overlap_d1])"
  by (simp add: overlap_d0_def overlap_d1_def make_batches_def grouped_def)

section \<open>Reading an address cell\<close>

text \<open>
  C10. \<open>parse_int\<close> returns a whole-number cell as it is and a finite float rounded towards
  zero (the result is no larger in magnitude than the float, less than 1 away from it and
  of the same sign); for the blank cell, the float \<^verbatim>\<open>nan\<close>, it raises what \<^verbatim>\<open>int\<close> raises.
  For a text it parses the stripped text in base 16 when the stripped text holds one of
  the letters A to F in either case and in base 10 otherwise; so \<^verbatim>\<open>"1E5"\<close> is read as the
  hexadecimal number 485, although it is no decimal integer text at all.

  What stripping and parsing mean is stated against the text itself and against
  \<open>positional_value\<close>, the sum of digit times power of the base:

  \<^item> the white-space characters are tab, line feed, vertical tab, form feed, carriage
    return, the four separators \<^verbatim>\<open>0x1C\<close> to \<^verbatim>\<open>0x1F\<close> and the space;
  \<^item> every text is white space, then its stripped text, then white space, and the stripped
    text is empty or begins and ends with a character that is no white space; the only
    such middle part of a text is its stripped text;
  \<^item> white space, an optional sign, one or more decimal digits, white space: the result is
    the decimal value of the digits, negated after a minus sign;
  \<^item> white space, an optional sign, an optional \<^verbatim>\<open>0x\<close> or \<^verbatim>\<open>0X\<close>, one or more hexadecimal
    digits of which one is a letter, white space: the result is the hexadecimal value of
    the digits, negated after a minus sign;
  \<^item> a stripped text that holds a character other than a sign, an underscore, \<^verbatim>\<open>x\<close>, \<^verbatim>\<open>X\<close>
    and the hexadecimal digits raises \<^verbatim>\<open>ValueError\<close>; so does one without a letter A to F
    that holds a character other than a sign, an underscore and the decimal digits; so
    does a text of white space only;
  \<^item> the decimal text of an integer is read back as that integer;
  \<^item> examples: \<^verbatim>\<open>" 12 "\<close> is 12, tab \<^verbatim>\<open>-7\<close> carriage return line feed is -7, \<^verbatim>\<open>"0x1F"\<close> is 31 but
    \<^verbatim>\<open>"0x10"\<close>, which has no letter A to F and is read in base 10, raises; \<^verbatim>\<open>"1_000"\<close> is 1000
    and \<^verbatim>\<open>"1__0"\<close> raises; the empty text, \<^verbatim>\<open>"1.5"\<close>, \<^verbatim>\<open>"1.5E3"\<close> and \<^verbatim>\<open>"1 2"\<close> raise; \<^verbatim>\<open>" 1e5 "\<close> is
    485 and \<^verbatim>\<open>"-0X_ff"\<close> is -255.
\<close>

theorem parse_int_cases:
  "parse_int (PyInt i) = Inr i
   \<and> parse_int (PyFloat x) = Inr (py_int_float x)
   \<and> \<bar>real_of_int (py_int_float x)\<bar> \<le> \<bar>x\<bar> \<and> \<bar>x\<bar> < \<bar>real_of_int (py_int_float x)\<bar> + 1
   \<and> 0 \<le> real_of_int (py_int_float x) * x
   \<and> parse_int NaN = Inl ValueError
   \<and> parse_int (PyStr s) =
        (if list_ex (\<lambda>c. c \<in> set ''ABCDEFabcdef'') (strip s) then int_text 16 (strip s)
         else int_text 10 (strip s))
   \<and> parse_int (PyStr ''1E5'') = Inr 485
   \<and> int_text 10 ''1E5'' = Inl ValueError
   \<and> (isspace c \<longleftrightarrow> c \<in> set [CHR 0x09, CHR 0x0A, CHR 0x0B, CHR 0x0C, CHR 0x0D,
                                  CHR 0x1C, CHR 0x1D, CHR 0x1E, CHR 0x1F, CHR 0x20])
   \<and> (\<exists>u v. s = u @ strip s @ v \<and> list_all isspace u \<and> list_all isspace v
         \<and> (strip s = [] \<or> (\<not> isspace (hd (strip s)) \<and> \<not> isspace (last (strip s)))))
   \<and> (list_all isspace a \<and> list_all isspace b
        \<and> core \<noteq> [] \<and> \<not> isspace (hd core) \<and> \<not> isspace (last core)
       \<longrightarrow> strip (a @ core @ b) = core)
   \<and> (list_all isspace da \<and> list_all isspace db \<and> dsg \<in> {[], ''+'', ''-''}
        \<and> dt \<noteq> [] \<and> set dt \<subseteq> set ''0123456789''
       \<longrightarrow> parse_int (PyStr (da @ dsg @ dt @ db)) =
           Inr ((if dsg = ''-'' then - 1 else 1) * int (positional_value 10 dt)))
   \<and> (list_all isspace ha \<and> list_all isspace hb \<and> hsg \<in> {[], ''+'', ''-''}
        \<and> hp \<in> {[], ''0x'', ''0X''}
        \<and> ht \<noteq> [] \<and> set ht \<subseteq> set ''0123456789abcdefABCDEF''
        \<and> (\<exists>l\<in>set ht. l \<in> set ''ABCDEFabcdef'')
       \<longrightarrow> parse_int (PyStr (ha @ hsg @ hp @ ht @ hb)) =
           Inr ((if hsg = ''-'' then - 1 else 1) * int (positional_value 16 ht)))
   \<and> (bad \<in> set (strip r) \<and> bad \<notin> set ''+-_xX0123456789abcdefABCDEF''
       \<longrightarrow> parse_int (PyStr r) = Inl ValueError)
   \<and> (\<not> list_ex (\<lambda>c. c \<in> set ''ABCDEFabcdef'') (strip q)
        \<and> stray \<in> set (strip q) \<and> stray \<notin> set ''+-_0123456789''
       \<longrightarrow> parse_int (PyStr q) = Inl ValueError)
   \<and> (list_all isspace w \<longrightarrow> parse_int (PyStr w) = Inl ValueError)
   \<and> parse_int (PyStr (str_int k)) = Inr k
   \<and> parse_int (PyStr '' 12 '') = Inr 12
   \<and> parse_int (PyStr [CHR 0x09, CHR ''-'', CHR ''7'', CHR 0x0D, CHR 0x0A]) = Inr (- 7)
   \<and> parse_int (PyStr ''0x1F'') = Inr 31
   \<and> parse_int (PyStr ''0x10'') = Inl ValueError
   \<and> parse_int (PyStr ''1_000'') = Inr 1000
   \<and> parse_int (PyStr ''1__0'') = Inl ValueError
   \<and> parse_int (PyStr []) = Inl ValueError
   \<and> parse_int (PyStr ''1.5'') = Inl ValueError
   \<and> parse_int (PyStr ''1.5E3'') = Inl ValueError
   \<and> parse_int (PyStr ''1 2'') = Inl ValueError
   \<and> parse_int (PyStr '' 1e5 '') = Inr 485
   \<and> parse_int (PyStr ''-0X_ff'') = Inr (- 255)"
proof -
  have n1: "parse_int (PyInt i) = Inr i" by (simp add: parse_int_def)
  have n2: "parse_int (PyFloat x) = Inr (py_int_float x)" by (simp add: parse_int_def)
  have n3: "\<bar>real_of_int (py_int_float x)\<bar> \<le> \<bar>x\<bar>"
    and n4: "\<bar>x\<bar> < \<bar>real_of_int (py_int_float x)\<bar> + 1"
    and n5: "0 \<le> real_of_int (py_int_float x) * x"
    using py_int_float_trunc[of x] by simp_all
  have n6: "parse_int NaN = Inl ValueError" by (simp add: parse_int_def)
  have e0: "parse_int (PyStr ''1E5'') = Inr 485"
    unfolding parse_int_text strip_1E5 int_text_16_1E5 by simp
  have g1: "list_all isspace a \<and> list_all isspace b
        \<and> core \<noteq> [] \<and> \<not> isspace (hd core) \<and> \<not> isspace (last core)
       \<longrightarrow> strip (a @ core @ b) = core"
    using strip_trim[of a b core] by blast
  have g2: "list_all isspace da \<and> list_all isspace db \<and> dsg \<in> {[], ''+'', ''-''}
        \<and> dt \<noteq> [] \<and> set dt \<subseteq> set ''0123456789''
       \<longrightarrow> parse_int (PyStr (da @ dsg @ dt @ db)) =
           Inr ((if dsg = ''-'' then - 1 else 1) * int (positional_value 10 dt))"
    using parse_int_decimal[of da db dsg dt] by blast
  have g3: "list_all isspace ha \<and> list_all isspace hb \<and> hsg \<in> {[], ''+'', ''-''}
        \<and> hp \<in> {[], ''0x'', ''0X''}
        \<and> ht \<noteq> [] \<and> set ht \<subseteq> set ''0123456789abcdefABCDEF''
        \<and> (\<exists>l\<in>set ht. l \<in> set ''ABCDEFabcdef'')
       \<longrightarrow> parse_int (PyStr (ha @ hsg @ hp @ ht @ hb)) =
           Inr ((if hsg = ''-'' then - 1 else 1) * int (positional_value 16 ht))"
    using parse_int_hexadecimal[of ha hb hsg hp ht] by blast
  have g4: "bad \<in> set (strip r) \<and> bad \<notin> set ''+-_xX0123456789abcdefABCDEF''
       \<longrightarrow> parse_int (PyStr r) = Inl ValueError"
    using parse_int_rejects[of bad r] by blast
  have g5: "\<not> list_ex (\<lambda>c. c \<in> set ''ABCDEFabcdef'') (strip q)
        \<and> stray \<in> set (strip q) \<and> stray \<notin> set ''+-_0123456789''
       \<longrightarrow> parse_int (PyStr q) = Inl ValueError"
    using parse_int_rejects_decimal[of q stray] by blast
  have g6: "list_all isspace w \<longrightarrow> parse_int (PyStr w) = Inl ValueError"
    using parse_int_blank[of w] by blast
  have e1: "parse_int (PyStr '' 12 '') = Inr 12"
    unfolding parse_int_text by (simp add: text_eval)
  have e2: "parse_int (PyStr [CHR 0x09, CHR ''-'', CHR ''7'', CHR 0x0D, CHR 0x0A]) = Inr (- 7)"
    unfolding parse_int_text by (simp add: text_eval)
  have e3: "parse_int (PyStr ''0x1F'') = Inr 31"
    unfolding parse_int_text by (simp add: text_eval)
  have e4: "parse_int (PyStr ''0x10'') = Inl ValueError"
    unfolding parse_int_text by (simp add: text_eval)
  have e5: "parse_int (PyStr ''1_000'') = Inr 1000"
    unfolding parse_int_text by (simp add: text_eval)
  have e6: "parse_int (PyStr ''1__0'') = Inl ValueError"
    unfolding parse_int_text by (simp add: text_eval)
  have e7: "parse_int (PyStr []) = Inl ValueError"
    unfolding parse_int_text by (simp add: text_eval)
  have e8: "parse_int (PyStr ''1.5'') = Inl ValueError"
    unfolding parse_int_text by (simp add: text_eval)
  have e9: "parse_int (PyStr ''1.5E3'') = Inl ValueError"
    unfolding parse_int_text by (simp add: text_eval)
  have e10: "parse_int (PyStr ''1 2'') = Inl ValueError"
    unfolding parse_int_text by (simp add: text_eval)
  have e11: "parse_int (PyStr '' 1e5 '') = Inr 485"
    unfolding parse_int_text by (simp add: text_eval)
  have e12: "parse_int (PyStr ''-0X_ff'') = Inr (- 255)"
    unfolding parse_int_text by (simp add: text_eval)
  show ?thesis
    by (intro conjI)
       (rule n1 n2 n3 n4 n5 n6 parse_int_text e0 int_text_10_1E5 isspace_iff strip_decompose
          g1 g2 g3 g4 g5 g6 parse_int_str_int e1 e2 e3 e4 e5 e6 e7 e8 e9 e10 e11 e12)+
qed

theorem parse_int_cases_witness:
  "strip ''  1 2 '' = ''1 2''
   \<and> parse_int (PyStr [CHR 0x20, CHR ''-'', CHR ''1'', CHR ''2'', CHR ''0'', CHR 0x0A]) = Inr (- 120)
   \<and> parse_int (PyStr [CHR 0x1C, CHR ''+'', CHR ''0'', CHR ''X'', CHR ''b'', CHR ''e'', CHR ''e'',
        CHR ''f'', CHR 0x0B]) = Inr 48879
   \<and> parse_int (PyStr '' 1.5E3 '') = Inl ValueError
   \<and> parse_int (PyStr '' 0x10'') = Inl ValueError
   \<and> parse_int (PyStr [CHR 0x20, CHR 0x09]) = Inl ValueError"
proof -
  have sp: "isspace (CHR 0x20)" "isspace (CHR 0x0A)" "isspace (CHR 0x1C)" "isspace (CHR 0x0B)"
    "isspace (CHR 0x09)" "\<not> isspace (CHR ''1'')" "\<not> isspace (CHR ''2'')"
    by (simp_all add: isspace_def)
  have s1: "strip '' 1.5E3 '' = ''1.5E3''" "strip '' 0x10'' = ''0x10''"
    by (simp_all add: strip_def isspace_def)
  note t = parse_int_cases
    [where i = 0 and x = 0 and s = "[]" and c = "CHR ''a''" and k = 0
       and a = "''  ''" and core = "''1 2''" and b = "'' ''"
       and da = "'' ''" and dsg = "''-''" and dt = "''120''" and db = "[CHR 0x0A]"
       and ha = "[CHR 0x1C]" and hsg = "''+''" and hp = "''0X''" and ht = "''beef''"
       and hb = "[CHR 0x0B]"
       and r = "'' 1.5E3 ''" and bad = "CHR ''.''"
       and q = "'' 0x10''" and stray = "CHR ''x''"
       and w = "[CHR 0x20, CHR 0x09]"]
  have "list_all isspace ''  '' \<and> list_all isspace '' ''
        \<and> ''1 2'' \<noteq> [] \<and> \<not> isspace (hd ''1 2'') \<and> \<not> isspace (last ''1 2'')
       \<longrightarrow> strip (''  '' @ ''1 2'' @ '' '') = ''1 2''"
    using t by (elim conjE)
  then have c: "strip ''  1 2 '' = ''1 2''" using sp by simp
  have "list_all isspace '' '' \<and> list_all isspace [CHR 0x0A] \<and> ''-'' \<in> {[], ''+'', ''-''}
        \<and> ''120'' \<noteq> [] \<and> set ''120'' \<subseteq> set ''0123456789''
       \<longrightarrow> parse_int (PyStr ('' '' @ ''-'' @ ''120'' @ [CHR 0x0A])) =
           Inr ((if ''-'' = ''-'' then - 1 else 1) * int (positional_value 10 ''120''))"
    using t by (elim conjE)
  then have d: "parse_int (PyStr [CHR 0x20, CHR ''-'', CHR ''1'', CHR ''2'', CHR ''0'', CHR 0x0A])
      = Inr (- 120)"
    using sp by (simp add: digit_value_def)
  have "list_all isspace [CHR 0x1C] \<and> list_all isspace [CHR 0x0B] \<and> ''+'' \<in> {[], ''+'', ''-''}
        \<and> ''0X'' \<in> {[], ''0x'', ''0X''}
        \<and> ''beef'' \<noteq> [] \<and> set ''beef'' \<subseteq> set ''0123456789abcdefABCDEF''
        \<and> (\<exists>l\<in>set ''beef''. l \<in> set ''ABCDEFabcdef'')
       \<longrightarrow> parse_int (PyStr ([CHR 0x1C] @ ''+'' @ ''0X'' @ ''beef'' @ [CHR 0x0B])) =
           Inr ((if ''+'' = ''-'' then - 1 else 1) * int (positional_value 16 ''beef''))"
    using t by (elim conjE)
  then have h: "parse_int (PyStr [CHR 0x1C, CHR ''+'', CHR ''0'', CHR ''X'', CHR ''b'', CHR ''e'',
        CHR ''e'', CHR ''f'', CHR 0x0B]) = Inr 48879"
    using sp by (simp add: digit_value_def)
  have "CHR ''.'' \<in> set (strip '' 1.5E3 '') \<and> CHR ''.'' \<notin> set ''+-_xX0123456789abcdefABCDEF''
       \<longrightarrow> parse_int (PyStr '' 1.5E3 '') = Inl ValueError"
    using t by (elim conjE)
  then have r: "parse_int (PyStr '' 1.5E3 '') = Inl ValueError" unfolding s1 by simp
  have "\<not> list_ex (\<lambda>c. c \<in> set ''ABCDEFabcdef'') (strip '' 0x10'')
        \<and> CHR ''x'' \<in> set (strip '' 0x10'') \<and> CHR ''x'' \<notin> set ''+-_0123456789''
       \<longrightarrow> parse_int (PyStr '' 0x10'') = Inl ValueError"
    using t by (elim conjE)
  then have q: "parse_int (PyStr '' 0x10'') = Inl ValueError" unfolding s1 by simp
  have "list_all isspace [CHR 0x20, CHR 0x09]
       \<longrightarrow> parse_int (PyStr [CHR 0x20, CHR 0x09]) = Inl ValueError"
    using t by (elim conjE)
  then have w: "parse_int (PyStr [CHR 0x20, CHR 0x09]) = Inl ValueError" using sp by simp
  show ?thesis by (intro conjI) (rule c d h r q w)+
qed

end
